theory Spec2Isabelle
  imports Complex_Main "HOL-Library.Multiset" "HOL-Library.Product_Lexorder"
begin

section \<open>Strings and characters as the Python code sees them\<close>

text \<open>
  Python \<open>str\<close> values are modelled as \<open>string\<close>: a list of code points below 256.
  On these code points the predicates below agree with CPython 3:
  \<open>str.isspace\<close> (which is also what \<open>\<bsol>s\<close> matches and what \<open>str.strip()\<close> removes),
  \<open>str.isdigit\<close>, the regular-expression classes \<open>\<bsol>d\<close> and \<open>\<bsol>w\<close>, and \<open>str.lower\<close>.
\<close>

definition py_isspace :: "char \<Rightarrow> bool" where
  "py_isspace c =
     (let n = (of_char c :: nat)
      in (9 \<le> n \<and> n \<le> 13) \<or> (28 \<le> n \<and> n \<le> 32) \<or> n = 133 \<or> n = 160)"



definition re_digit :: "char \<Rightarrow> bool" where
  \<comment> \<open>\<open>\<bsol>d\<close>: decimal digits only\<close>
  "re_digit c = (let n = (of_char c :: nat) in 48 \<le> n \<and> n \<le> 57)"

definition re_word :: "char \<Rightarrow> bool" where
  \<comment> \<open>\<open>\<bsol>w\<close>: alphanumeric characters and the underscore\<close>
  "re_word c =
     (let n = (of_char c :: nat)
      in (48 \<le> n \<and> n \<le> 57) \<or> (65 \<le> n \<and> n \<le> 90) \<or> n = 95 \<or> (97 \<le> n \<and> n \<le> 122)
         \<or> n = 170 \<or> n = 178 \<or> n = 179 \<or> n = 181 \<or> n = 185 \<or> n = 186
         \<or> (188 \<le> n \<and> n \<le> 190) \<or> (192 \<le> n \<and> n \<le> 214)
         \<or> (216 \<le> n \<and> n \<le> 246) \<or> (248 \<le> n \<and> n \<le> 255))"

definition py_lower_char :: "char \<Rightarrow> char" where
  "py_lower_char c =
     (let n = (of_char c :: nat)
      in if (65 \<le> n \<and> n \<le> 90) \<or> (192 \<le> n \<and> n \<le> 214) \<or> (216 \<le> n \<and> n \<le> 222)
         then char_of (n + 32) else c)"

definition py_lower :: "string \<Rightarrow> string" where
  "py_lower s = map py_lower_char s"



definition py_strip :: "string \<Rightarrow> string" where
  \<comment> \<open>\<open>s.strip()\<close>: leading and trailing whitespace removed\<close>
  "py_strip s = rev (dropWhile py_isspace (rev (dropWhile py_isspace s)))"


section \<open>The regular expressions used by the program\<close>

text \<open>
  The fragment of Python's \<open>re\<close> syntax that occurs in the sources: literals, character
  classes (possibly negated), \<open>\<bsol>b\<close>, \<open>^\<close>, \<open>$\<close>, concatenation, alternation, \<open>?\<close>, and
  \<open>*\<close> / \<open>+\<close> applied to a character class. The inline flag \<open>(?i)\<close> is the Boolean
  argument \<open>ic\<close> of the matcher; no pattern of the program combines it with a range.
\<close>

datatype atom = Lit char | Rng char char | Space | Digit

datatype cls = Pos "atom list" | Neg "atom list"

datatype rx =
    Eps
  | Chr cls
  | Str string
  | Bnd
  | Bos
  | Eos
  | Cat rx rx
  | Alt rx rx
  | Opt rx
  | Star cls
  | Plus cls

fun atom_match :: "bool \<Rightarrow> atom \<Rightarrow> char \<Rightarrow> bool" where
  "atom_match ic (Lit x) c = (if ic then py_lower_char c = py_lower_char x else c = x)"
| "atom_match ic (Rng lo hi) c =
     ((of_char lo :: nat) \<le> of_char c \<and> (of_char c :: nat) \<le> of_char hi)"
| "atom_match ic Space c = py_isspace c"
| "atom_match ic Digit c = re_digit c"

fun cls_match :: "bool \<Rightarrow> cls \<Rightarrow> char \<Rightarrow> bool" where
  "cls_match ic (Pos as) c = list_ex (\<lambda>a. atom_match ic a c) as"
| "cls_match ic (Neg as) c = (\<not> list_ex (\<lambda>a. atom_match ic a c) as)"

text \<open>
  A matcher state is the character before the current position (\<open>None\<close> at the start of
  the text) and the text that remains. \<open>rmatch\<close> returns the states after every way of
  matching, in the order in which Python's backtracking matcher tries them (greedy
  repetition first, alternatives left to right).
\<close>

type_synonym mstate = "char option \<times> string"

definition word_before :: "char option \<Rightarrow> bool" where
  "word_before p = (case p of None \<Rightarrow> False | Some c \<Rightarrow> re_word c)"

definition word_after :: "string \<Rightarrow> bool" where
  "word_after s = (case s of [] \<Rightarrow> False | c # _ \<Rightarrow> re_word c)"

fun str_match :: "bool \<Rightarrow> string \<Rightarrow> mstate \<Rightarrow> mstate list" where
  "str_match ic [] st = [st]"
| "str_match ic (x # xs) (p, []) = []"
| "str_match ic (x # xs) (p, c # cs) =
     (if atom_match ic (Lit x) c then str_match ic xs (Some c, cs) else [])"

fun star_match :: "bool \<Rightarrow> cls \<Rightarrow> mstate \<Rightarrow> mstate list" where
  "star_match ic k (p, []) = [(p, [])]"
| "star_match ic k (p, c # cs) =
     (if cls_match ic k c then star_match ic k (Some c, cs) @ [(p, c # cs)]
      else [(p, c # cs)])"

fun rmatch :: "bool \<Rightarrow> rx \<Rightarrow> mstate \<Rightarrow> mstate list" where
  "rmatch ic Eps st = [st]"
| "rmatch ic (Chr k) (p, s) =
     (case s of [] \<Rightarrow> [] | c # cs \<Rightarrow> if cls_match ic k c then [(Some c, cs)] else [])"
| "rmatch ic (Str w) st = str_match ic w st"
| "rmatch ic Bnd (p, s) = (if word_before p \<noteq> word_after s then [(p, s)] else [])"
| "rmatch ic Bos (p, s) = (if p = None then [(p, s)] else [])"
| "rmatch ic Eos (p, s) = (if s = [] \<or> s = [CHR 0x0A] then [(p, s)] else [])"
| "rmatch ic (Cat r1 r2) st = concat (map (rmatch ic r2) (rmatch ic r1 st))"
| "rmatch ic (Alt r1 r2) st = rmatch ic r1 st @ rmatch ic r2 st"
| "rmatch ic (Opt r) st = rmatch ic r st @ [st]"
| "rmatch ic (Star k) st = star_match ic k st"
| "rmatch ic (Plus k) (p, s) =
     (case s of [] \<Rightarrow> []
      | c # cs \<Rightarrow> if cls_match ic k c then star_match ic k (Some c, cs) else [])"

definition seq :: "rx list \<Rightarrow> rx" where
  "seq rs = foldr Cat rs Eps"


fun search_from :: "bool \<Rightarrow> rx \<Rightarrow> mstate \<Rightarrow> bool" where
  "search_from ic r (p, []) = (rmatch ic r (p, []) \<noteq> [])"
| "search_from ic r (p, c # cs) =
     (rmatch ic r (p, c # cs) \<noteq> [] \<or> search_from ic r (Some c, cs))"

definition re_search :: "bool \<Rightarrow> rx \<Rightarrow> string \<Rightarrow> bool" where
  \<comment> \<open>\<open>re.search(pat, s)\<close> read as a truth value\<close>
  "re_search ic r s = search_from ic r (None, s)"

text \<open>
  \<open>re.sub(pat, repl, s)\<close> for a literal replacement: scan from the left, replace the
  first match found at the earliest position, continue behind it. After an empty match
  the next match at the same position must consume something (\<open>adv\<close>).
  Every state returned by \<open>rmatch\<close> has a remaining text no longer than the one it was
  given; the selection below spells that bound out.
\<close>

function sub_from :: "bool \<Rightarrow> rx \<Rightarrow> string \<Rightarrow> bool \<Rightarrow> mstate \<Rightarrow> string" where
  "sub_from ic r repl adv (p, s) =
     (case find (\<lambda>(p', s'). length s' < length s \<or> (\<not> adv \<and> length s' = length s))
                (rmatch ic r (p, s)) of
        Some (p', s') \<Rightarrow> repl @ sub_from ic r repl (length s' = length s) (p', s')
      | None \<Rightarrow>
          (case s of [] \<Rightarrow> [] | c # cs \<Rightarrow> c # sub_from ic r repl False (Some c, cs)))"
  by pat_completeness auto
termination
  by (relation "measure (\<lambda>(ic, r, repl, adv, (p, s)). 2 * length s + (if adv then 0 else 1))")
     (auto simp: find_Some_iff)

declare sub_from.simps [simp del]

definition re_sub :: "bool \<Rightarrow> rx \<Rightarrow> string \<Rightarrow> string \<Rightarrow> string" where
  "re_sub ic r repl s = sub_from ic r repl False (None, s)"

section \<open>Data model\<close>

datatype FieldType = TEXT | NUMBER | DATE | EMAIL | PHONE | CHECKBOX | NRIC

type_synonym bbox = "int \<times> int \<times> int \<times> int"

record FormField =
  field_id :: string
  page_index :: int
  label_text :: string
  field_type :: FieldType
  target_bbox :: bbox
  label_bbox :: bbox
  required :: bool
  confidence :: rat
  answer :: string
  validation_hint :: string

section \<open>Label classification\<close>

definition wordpat :: "rx list \<Rightarrow> rx" where
  \<comment> \<open>\<open>\<bsol>b ... \<bsol>b\<close>\<close>
  "wordpat rs = seq ([Bnd] @ rs @ [Bnd])"

definition spaces :: rx where
  \<comment> \<open>\<open>\<bsol>s*\<close>\<close>
  "spaces = Star (Pos [Space])"

definition LABEL_PATTERNS :: "(FieldType \<times> rx list) list" where
  \<comment> \<open>the dictionary in insertion order, which is the order in which \<open>.items()\<close> yields it;
      every pattern carries \<open>(?i)\<close>\<close>
  "LABEL_PATTERNS =
    [(TEXT,
        [wordpat [Str ''name''], wordpat [Str ''address''], wordpat [Str ''occupation''],
         wordpat [Str ''nationality''], wordpat [Str ''company''],
         wordpat [Str ''organi'', Opt (Str ''s''), Str ''ation''],
         wordpat [Str ''gender''], wordpat [Str ''sex''], wordpat [Str ''race''],
         wordpat [Str ''religion''], wordpat [Str ''signature''],
         wordpat [Str ''remark'', Opt (Str ''s'')], wordpat [Str ''purpose'']]),
     (EMAIL,
        [wordpat [Str ''e'', Opt (Chr (Pos [Lit CHR ''-'', Space])), Str ''mail'']]),
     (PHONE,
        [wordpat [Str ''phone''], wordpat [Str ''tel'', Opt (Str ''ephone'')],
         wordpat [Str ''mobile''],
         wordpat [Str ''contact'', spaces, Alt (Str ''no'') (Str ''number'')],
         wordpat [Str ''fax'']]),
     (DATE,
        [wordpat [Str ''date''], wordpat [Str ''dob''],
         wordpat [Str ''date'', spaces, Str ''of'', spaces, Str ''birth''],
         wordpat [Str ''expiry''], wordpat [Str ''issue'', spaces, Str ''date'']]),
     (NRIC,
        [wordpat [Str ''nric''], wordpat [Str ''fin''],
         wordpat [Str ''ic'', spaces, Str ''no'']]),
     (NUMBER,
        [wordpat [Str ''age''], wordpat [Str ''postal'', spaces, Str ''code''],
         wordpat [Str ''zip''], wordpat [Str ''unit'', spaces, Str ''no''],
         wordpat [Str ''block'']])]"

definition matches_any :: "rx list \<Rightarrow> string \<Rightarrow> bool" where
  \<comment> \<open>the inner loop: some pattern of the list is found in the text\<close>
  "matches_any patterns text = list_ex (\<lambda>pat. re_search True pat text) patterns"

fun classify_in :: "(FieldType \<times> rx list) list \<Rightarrow> string \<Rightarrow> FieldType option" where
  "classify_in [] text = None"
| "classify_in ((ftype, patterns) # rest) text =
     (if matches_any patterns text then Some ftype else classify_in rest text)"

definition classify_label :: "string \<Rightarrow> FieldType option" where
  "classify_label text = classify_in LABEL_PATTERNS text"

definition is_required :: "string \<Rightarrow> bool" where
  \<comment> \<open>\<open>(?i)\<bsol>*|\<bsol>brequired\<bsol>b|\<bsol>bmandatory\<bsol>b\<close>\<close>
  "is_required text =
     re_search True
       (Alt (Str ''*'') (Alt (wordpat [Str ''required'']) (wordpat [Str ''mandatory''])))
       text"

definition clean_label :: "string \<Rightarrow> string" where
  "clean_label text =
     (let text1 = re_sub False (seq [Plus (Pos [Lit CHR '':'', Lit CHR ''*'']), Eos]) ''''
                    (py_strip text);
          text2 = re_sub False (Plus (Pos [Space])) '' '' text1
      in py_strip text2)"

section \<open>Spatial association\<close>

text \<open>
  Bounding boxes hold Python integers. The vertical centres are computed by true
  division; halves of integers are exact in binary floating point (for coordinates
  below \<open>2^53\<close>), so they are modelled as rationals.
\<close>

definition center_y :: "bbox \<Rightarrow> rat" where
  "center_y b = (case b of (x1, y1, x2, y2) \<Rightarrow> (of_int y1 + of_int y2) / 2)"

fun nearest_loop :: "bbox \<Rightarrow> bbox list \<Rightarrow> bbox option \<times> int \<Rightarrow> bbox option" where
  "nearest_loop lb [] (best, best_dist) = best"
| "nearest_loop lb (region # rest) (best, best_dist) =
     (case lb of (lx1, ly1, lx2, ly2) \<Rightarrow>
      case region of (rx1, ry1, rx2, ry2) \<Rightarrow>
        if \<bar>center_y region - center_y lb\<bar> < 30 \<and> rx1 > lx2 then
          (let dist = rx1 - lx2
           in if dist < best_dist then nearest_loop lb rest (Some region, dist)
              else nearest_loop lb rest (best, best_dist))
        else if ry1 > ly2 \<and> \<bar>rx1 - lx1\<bar> < 100 then
          (let dist = ry1 - ly2
           in if dist < best_dist then nearest_loop lb rest (Some region, dist)
              else nearest_loop lb rest (best, best_dist))
        else nearest_loop lb rest (best, best_dist))"

definition find_nearest_input_region :: "bbox \<Rightarrow> bbox list \<Rightarrow> int \<Rightarrow> bbox option" where
  "find_nearest_input_region lb input_regions max_distance =
     nearest_loop lb input_regions (None, max_distance)"

definition scale_08 :: "int \<Rightarrow> int" where
  \<comment> \<open>\<open>int(page_width * 0.8)\<close>: the product truncated towards zero. The floating-point
      product truncates to the same integer as the exact one for widths below \<open>2^50\<close>.\<close>
  "scale_08 w = (if 0 \<le> w then (4 * w) div 5 else - ((4 * (- w)) div 5))"

definition infer_answer_region :: "bbox \<Rightarrow> int \<Rightarrow> bbox" where
  \<comment> \<open>the local \<open>h = ly2 - ly1\<close> is never read and is left out; \<open>_int_bbox\<close> is the
      identity on integers\<close>
  "infer_answer_region lb page_width =
     (case lb of (lx1, ly1, lx2, ly2) \<Rightarrow>
        let target_x2 = min (lx2 + 400) (scale_08 page_width)
        in (lx2 + 10, ly1, target_x2, ly2))"

definition resolve_target :: "bbox \<Rightarrow> bbox list \<Rightarrow> int \<Rightarrow> bbox" where
  \<comment> \<open>the target of a label in \<open>detect_fields\<close> and \<open>detect_fields_llm\<close>: the nearest
      region under the default cap, else the inferred one\<close>
  "resolve_target lb input_regions page_width =
     (case find_nearest_input_region lb input_regions 200 of
        None \<Rightarrow> infer_answer_region lb page_width
      | Some target \<Rightarrow> target)"

text \<open>
  The vocabulary in which the associator is specified. \<open>same_row\<close> and \<open>below\<close> are the two
  acceptance geometries. \<open>measured_dist\<close> is the one distance the loop assigns to a
  candidate: the horizontal gap when the same-row test holds, otherwise the vertical
  gap when the below test holds. \<open>geometry_dists\<close> lists the distance of every geometry
  the candidate satisfies.
\<close>

definition same_row :: "bbox \<Rightarrow> bbox \<Rightarrow> bool" where
  "same_row lb region =
     (case lb of (lx1, ly1, lx2, ly2) \<Rightarrow> case region of (rx1, ry1, rx2, ry2) \<Rightarrow>
        \<bar>center_y region - center_y lb\<bar> < 30 \<and> rx1 > lx2)"

definition below :: "bbox \<Rightarrow> bbox \<Rightarrow> bool" where
  "below lb region =
     (case lb of (lx1, ly1, lx2, ly2) \<Rightarrow> case region of (rx1, ry1, rx2, ry2) \<Rightarrow>
        ry1 > ly2 \<and> \<bar>rx1 - lx1\<bar> < 100)"

definition row_gap :: "bbox \<Rightarrow> bbox \<Rightarrow> int" where
  "row_gap lb region =
     (case lb of (lx1, ly1, lx2, ly2) \<Rightarrow> case region of (rx1, ry1, rx2, ry2) \<Rightarrow> rx1 - lx2)"

definition below_gap :: "bbox \<Rightarrow> bbox \<Rightarrow> int" where
  "below_gap lb region =
     (case lb of (lx1, ly1, lx2, ly2) \<Rightarrow> case region of (rx1, ry1, rx2, ry2) \<Rightarrow> ry1 - ly2)"

definition measured_dist :: "bbox \<Rightarrow> bbox \<Rightarrow> int option" where
  "measured_dist lb region =
     (if same_row lb region then Some (row_gap lb region)
      else if below lb region then Some (below_gap lb region)
      else None)"

definition geometry_dists :: "bbox \<Rightarrow> bbox \<Rightarrow> int list" where
  "geometry_dists lb region =
     (if same_row lb region then [row_gap lb region] else []) @
     (if below lb region then [below_gap lb region] else [])"

section \<open>Field fusion\<close>

text \<open>
  \<open>merge_fields\<close> reads its fields and never writes them, and \<open>list.remove\<close> compares
  with \<open>==\<close>, which on a dataclass is equality of all components: fields are values here.
  \<open>list.remove\<close> raises \<open>ValueError\<close> when nothing equal is in the list; that is the
  result \<open>None\<close>.
\<close>

definition norm_key :: "'a FormField_scheme \<Rightarrow> string" where
  \<comment> \<open>\<open>f.label_text.strip().lower()\<close>\<close>
  "norm_key f = py_lower (py_strip (label_text f))"

definition seen_of :: "FormField list \<Rightarrow> (string \<rightharpoonup> FormField)" where
  \<comment> \<open>the dictionary comprehension: a later field of the same key overwrites\<close>
  "seen_of heuristic = fold (\<lambda>f m. m(norm_key f \<mapsto> f)) heuristic Map.empty"

definition list_remove :: "'a \<Rightarrow> 'a list \<Rightarrow> 'a list option" where
  "list_remove x xs = (if x \<in> set xs then Some (remove1 x xs) else None)"

fun merge_loop ::
  "FormField list \<Rightarrow> FormField list \<times> (string \<rightharpoonup> FormField) \<Rightarrow> FormField list option"
where
  "merge_loop [] (merged, seen) = Some merged"
| "merge_loop (f # rest) (merged, seen) =
     (let key = norm_key f
      in if key = [] then merge_loop rest (merged, seen)
         else case seen key of
           None \<Rightarrow> merge_loop rest (merged @ [f], seen(key \<mapsto> f))
         | Some existing \<Rightarrow>
             if confidence f > confidence existing then
               (case list_remove existing merged of
                  None \<Rightarrow> None
                | Some merged' \<Rightarrow> merge_loop rest (merged' @ [f], seen(key \<mapsto> f)))
             else merge_loop rest (merged, seen))"

definition merge_fields :: "FormField list \<Rightarrow> FormField list \<Rightarrow> FormField list option" where
  "merge_fields heuristic llm =
     (if llm = [] then Some heuristic
      else merge_loop llm (heuristic, seen_of heuristic))"

section \<open>Field ordering\<close>

text \<open>
  \<open>order_fields\<close> writes \<open>field_id\<close> into the objects it was given, so its model has a
  store: a reference is an address, the heap maps addresses to field records, and the
  argument and the result are lists of references.
\<close>

type_synonym ref = nat

type_synonym heap = "ref \<Rightarrow> FormField"

definition field_sort_key :: "'a FormField_scheme \<Rightarrow> int \<times> int \<times> int" where
  "field_sort_key f =
     (case label_bbox f of (x1, y1, x2, y2) \<Rightarrow>
        let row = y1 div 20 in (page_index f, row, x1))"

fun decimal :: "nat \<Rightarrow> string" where
  "decimal n =
     (if n < 10 then [char_of (48 + n)]
      else decimal (n div 10) @ [char_of (48 + n mod 10)])"

declare decimal.simps [simp del]

definition format_id :: "nat \<Rightarrow> string" where
  \<comment> \<open>\<open>f"f{i:03d}"\<close>: the decimal digits, padded with zeros on the left to width 3\<close>
  "format_id i = CHR ''f'' # replicate (3 - length (decimal i)) CHR ''0'' @ decimal i"

fun assign_ids :: "nat \<Rightarrow> ref list \<Rightarrow> heap \<Rightarrow> heap" where
  \<comment> \<open>the \<open>enumerate\<close> loop, from index \<open>i\<close> on\<close>
  "assign_ids i [] h = h"
| "assign_ids i (r # rs) h = assign_ids (Suc i) rs (h(r := (h r)\<lparr>field_id := format_id i\<rparr>))"

definition order_fields :: "heap \<Rightarrow> ref list \<Rightarrow> heap \<times> ref list" where
  "order_fields h field_refs =
     (let ordered = sort_key (\<lambda>r. field_sort_key (h r)) field_refs
      in (assign_ids 0 ordered h, ordered))"

section \<open>Answer validation\<close>









text \<open>
  The vocabulary in which the classifier is specified: the pattern list of a type, and
  whether a text matches a type (some pattern of the type is found in it).
\<close>

definition type_patterns :: "FieldType \<Rightarrow> rx list" where
  "type_patterns ftype = (case map_of LABEL_PATTERNS ftype of None \<Rightarrow> [] | Some patterns \<Rightarrow> patterns)"

definition type_matches :: "FieldType \<Rightarrow> string \<Rightarrow> bool" where
  "type_matches ftype text = matches_any (type_patterns ftype) text"

text \<open>
  The selection as the specification words it: every candidate is measured in every
  geometry it satisfies, and the smallest distance under the cap across both geometries
  wins, the first encountered on ties.
\<close>

definition least_geometry_dist :: "bbox \<Rightarrow> bbox \<Rightarrow> int option" where
  "least_geometry_dist lb region =
     (case geometry_dists lb region of [] \<Rightarrow> None | d # ds \<Rightarrow> Some (fold min ds d))"

fun spec_nearest_loop :: "bbox \<Rightarrow> bbox list \<Rightarrow> bbox option \<times> int \<Rightarrow> bbox option" where
  "spec_nearest_loop lb [] (best, best_dist) = best"
| "spec_nearest_loop lb (region # rest) (best, best_dist) =
     (case least_geometry_dist lb region of
        None \<Rightarrow> spec_nearest_loop lb rest (best, best_dist)
      | Some d \<Rightarrow>
          if d < best_dist then spec_nearest_loop lb rest (Some region, d)
          else spec_nearest_loop lb rest (best, best_dist))"

definition spec_nearest_region :: "bbox \<Rightarrow> bbox list \<Rightarrow> int \<Rightarrow> bbox option" where
  "spec_nearest_region lb input_regions max_distance =
     spec_nearest_loop lb input_regions (None, max_distance)"

text \<open>The well-formedness of a bounding box in the data model.\<close>

definition bbox_ok :: "bbox \<Rightarrow> bool" where
  "bbox_ok b = (case b of (x1, y1, x2, y2) \<Rightarrow> x1 \<le> x2 \<and> y1 \<le> y2)"

text \<open>
  A store for the closed examples: the object at address \<open>r\<close> is an external candidate
  whose label starts at \<open>y1 = 100 - 40 * r\<close>, so a higher address lies higher on the page.
\<close>

definition example_heap :: heap where
  "example_heap r =
     \<lparr>field_id = ''llm007'', page_index = 0, label_text = ''Name'', field_type = TEXT,
      target_bbox = (130, 95, 400, 121),
      label_bbox = (50, 100 - 40 * int r, 120, 120 - 40 * int r),
      required = False, confidence = 7 / 10, answer = [], validation_hint = []\<rparr>"

text \<open>
  The body of the fusion loop on the working list alone: what the dictionary \<open>seen\<close>
  answers is looked up in the list instead.
\<close>

definition fuse_step :: "FormField list \<Rightarrow> FormField \<Rightarrow> FormField list" where
  "fuse_step merged f =
     (let key = norm_key f
      in if key = [] then merged
         else case find (\<lambda>e. norm_key e = key) merged of
           None \<Rightarrow> merged @ [f]
         | Some existing \<Rightarrow>
             if confidence f > confidence existing then remove1 existing merged @ [f]
             else merged)"

section \<open>Answer validation: the PHONE rule\<close>













section \<open>Field fusion\<close>

text \<open>
  C5: fusing any heuristic list with an empty external list returns the heuristic list
  itself.
\<close>

theorem merge_fields_empty_external: "merge_fields heuristic [] = Some heuristic"
  by (simp add: merge_fields_def)

section \<open>The label "Email Address *"\<close>

text \<open>
  C6, as the code has it. The line text \<open>Email Address *\<close> contains the whole word
  \<open>address\<close>, a TEXT pattern, and TEXT is tried before EMAIL: the line is classified
  TEXT. It is required (an asterisk is present) and its cleaned label is
  \<open>Email Address\<close>.
\<close>

theorem email_address_label:
  "classify_label ''Email Address *'' = Some TEXT
   \<and> re_search True (wordpat [Str ''address'']) ''Email Address *''
   \<and> is_required ''Email Address *''
   \<and> clean_label ''Email Address *'' = ''Email Address''"
  by code_simp

text \<open>The classification is not EMAIL.\<close>

theorem email_address_label_counterexample:
  "classify_label ''Email Address *'' \<noteq> Some EMAIL"
  by code_simp

section \<open>Label classification\<close>

lemma label_pattern_types:
  "map fst LABEL_PATTERNS = [TEXT, EMAIL, PHONE, DATE, NRIC, NUMBER]"
  by (simp add: LABEL_PATTERNS_def)

lemma label_patterns_shape:
  "LABEL_PATTERNS =
     [(TEXT, type_patterns TEXT), (EMAIL, type_patterns EMAIL), (PHONE, type_patterns PHONE),
      (DATE, type_patterns DATE), (NRIC, type_patterns NRIC), (NUMBER, type_patterns NUMBER)]"
  by (simp add: LABEL_PATTERNS_def type_patterns_def)

lemma classify_label_cascade:
  "classify_label text =
     (if type_matches TEXT text then Some TEXT
      else if type_matches EMAIL text then Some EMAIL
      else if type_matches PHONE text then Some PHONE
      else if type_matches DATE text then Some DATE
      else if type_matches NRIC text then Some NRIC
      else if type_matches NUMBER text then Some NUMBER
      else None)"
  unfolding classify_label_def type_matches_def
  by (subst label_patterns_shape) simp

lemma no_patterns_elsewhere:
  "type_patterns CHECKBOX = []"
  by (simp add: type_patterns_def LABEL_PATTERNS_def)



lemma classify_none_all:
  assumes "classify_label text = None"
  shows "\<not> type_matches ftype text"
proof -
  have six: "\<not> type_matches TEXT text \<and> \<not> type_matches EMAIL text \<and> \<not> type_matches PHONE text
      \<and> \<not> type_matches DATE text \<and> \<not> type_matches NRIC text \<and> \<not> type_matches NUMBER text"
    using assms unfolding classify_label_cascade by (simp split: if_splits)
  have cb: "\<not> type_matches CHECKBOX text"
    by (simp add: type_matches_def no_patterns_elsewhere matches_any_def)
  show ?thesis using six cb by (cases ftype) simp_all
qed

text \<open>
  C2: the pattern table lists the types in the order TEXT, EMAIL, PHONE, DATE, NRIC,
  NUMBER, and classification returns the first type of that order one of whose patterns
  is found in the text. A text matching TEXT and PHONE is therefore TEXT, and a text
  is rejected (\<open>None\<close>) exactly when it matches no type.
\<close>

theorem classify_label_priority:
  "map fst LABEL_PATTERNS = [TEXT, EMAIL, PHONE, DATE, NRIC, NUMBER]
   \<and> classify_label text =
       (if type_matches TEXT text then Some TEXT
        else if type_matches EMAIL text then Some EMAIL
        else if type_matches PHONE text then Some PHONE
        else if type_matches DATE text then Some DATE
        else if type_matches NRIC text then Some NRIC
        else if type_matches NUMBER text then Some NUMBER
        else None)
   \<and> (type_matches TEXT text \<and> type_matches PHONE text \<longrightarrow> classify_label text = Some TEXT)
   \<and> ((\<forall>ftype. \<not> type_matches ftype text) \<longrightarrow> classify_label text = None)
   \<and> (classify_label text = None \<longrightarrow> (\<forall>ftype. \<not> type_matches ftype text))"
proof (intro conjI impI allI)
  show "map fst LABEL_PATTERNS = [TEXT, EMAIL, PHONE, DATE, NRIC, NUMBER]"
    by (rule label_pattern_types)
  show "classify_label text =
       (if type_matches TEXT text then Some TEXT
        else if type_matches EMAIL text then Some EMAIL
        else if type_matches PHONE text then Some PHONE
        else if type_matches DATE text then Some DATE
        else if type_matches NRIC text then Some NRIC
        else if type_matches NUMBER text then Some NUMBER
        else None)"
    by (rule classify_label_cascade)
  show "classify_label text = Some TEXT" if "type_matches TEXT text \<and> type_matches PHONE text"
    using that by (simp add: classify_label_cascade)
  show "classify_label text = None" if "\<forall>ftype. \<not> type_matches ftype text"
    using that by (simp add: classify_label_cascade)
  show "\<not> type_matches ftype text" if "classify_label text = None" for ftype
    using that by (rule classify_none_all)
qed


theorem classify_label_priority_witness:
  "type_matches TEXT ''Name Tel'' \<and> type_matches PHONE ''Name Tel''
   \<and> classify_label ''Name Tel'' = Some TEXT
   \<and> classify_label ''Hi'' = None
   \<and> (\<forall>ftype. \<not> type_matches ftype ''Hi'')"
proof -
  have a: "type_matches TEXT ''Name Tel''" by code_simp
  have b: "type_matches PHONE ''Name Tel''" by code_simp
  have c: "classify_label ''Hi'' = None" by code_simp
  have d: "classify_label ''Name Tel'' = Some TEXT"
    by (rule mp [OF conjunct1 [OF conjunct2 [OF conjunct2 [OF classify_label_priority]]]
                 conjI [OF a b]])
  have e: "\<forall>ftype. \<not> type_matches ftype ''Hi''"
    by (rule mp [OF conjunct2 [OF conjunct2 [OF conjunct2 [OF conjunct2
                 [OF classify_label_priority]]]] c])
  from a b c d e show ?thesis by (intro conjI)
qed

section \<open>Spatial association\<close>

lemma nearest_loop_step:
  "nearest_loop lb (region # rest) (best, bd) =
     (case measured_dist lb region of
        None \<Rightarrow> nearest_loop lb rest (best, bd)
      | Some d \<Rightarrow> if d < bd then nearest_loop lb rest (Some region, d)
                  else nearest_loop lb rest (best, bd))"
  by (cases lb rule: prod_cases4; cases region rule: prod_cases4)
     (simp add: measured_dist_def same_row_def below_def row_gap_def below_gap_def Let_def)

lemma nearest_loop_char:
  "(nearest_loop lb rs (best, bd) = best
      \<and> (\<forall>x\<in>set rs. \<forall>d. measured_dist lb x = Some d \<longrightarrow> bd \<le> d))
   \<or> (\<exists>pre r post d. rs = pre @ r # post \<and> nearest_loop lb rs (best, bd) = Some r
        \<and> measured_dist lb r = Some d \<and> d < bd
        \<and> (\<forall>x\<in>set pre. \<forall>d'. measured_dist lb x = Some d' \<longrightarrow> d < d')
        \<and> (\<forall>x\<in>set post. \<forall>d'. measured_dist lb x = Some d' \<longrightarrow> d \<le> d'))"
proof (induction rs arbitrary: best bd)
  case Nil
  show ?case by simp
next
  case (Cons a rs)
  show ?case
  proof (cases "\<exists>d. measured_dist lb a = Some d \<and> d < bd")
    case True
    then obtain d where d: "measured_dist lb a = Some d" "d < bd" by blast
    then have step: "nearest_loop lb (a # rs) (best, bd) = nearest_loop lb rs (Some a, d)"
      by (subst nearest_loop_step) simp
    from Cons.IH [of "Some a" d] show ?thesis
    proof
      assume h: "nearest_loop lb rs (Some a, d) = Some a
          \<and> (\<forall>x\<in>set rs. \<forall>d'. measured_dist lb x = Some d' \<longrightarrow> d \<le> d')"
      have "a # rs = [] @ a # rs \<and> nearest_loop lb (a # rs) (best, bd) = Some a
        \<and> measured_dist lb a = Some d \<and> d < bd
        \<and> (\<forall>x\<in>set []. \<forall>d'. measured_dist lb x = Some d' \<longrightarrow> d < d')
        \<and> (\<forall>x\<in>set rs. \<forall>d'. measured_dist lb x = Some d' \<longrightarrow> d \<le> d')"
        using h d step by simp
      then show ?thesis by blast
    next
      assume "\<exists>pre r post d2. rs = pre @ r # post \<and> nearest_loop lb rs (Some a, d) = Some r
        \<and> measured_dist lb r = Some d2 \<and> d2 < d
        \<and> (\<forall>x\<in>set pre. \<forall>d'. measured_dist lb x = Some d' \<longrightarrow> d2 < d')
        \<and> (\<forall>x\<in>set post. \<forall>d'. measured_dist lb x = Some d' \<longrightarrow> d2 \<le> d')"
      then obtain pre r post d2 where h: "rs = pre @ r # post"
        "nearest_loop lb rs (Some a, d) = Some r" "measured_dist lb r = Some d2" "d2 < d"
        "\<forall>x\<in>set pre. \<forall>d'. measured_dist lb x = Some d' \<longrightarrow> d2 < d'"
        "\<forall>x\<in>set post. \<forall>d'. measured_dist lb x = Some d' \<longrightarrow> d2 \<le> d'"
        by blast
      have "a # rs = (a # pre) @ r # post \<and> nearest_loop lb (a # rs) (best, bd) = Some r
        \<and> measured_dist lb r = Some d2 \<and> d2 < bd
        \<and> (\<forall>x\<in>set (a # pre). \<forall>d'. measured_dist lb x = Some d' \<longrightarrow> d2 < d')
        \<and> (\<forall>x\<in>set post. \<forall>d'. measured_dist lb x = Some d' \<longrightarrow> d2 \<le> d')"
        using h d step by auto
      then show ?thesis by blast
    qed
  next
    case False
    then have step: "nearest_loop lb (a # rs) (best, bd) = nearest_loop lb rs (best, bd)"
      by (subst nearest_loop_step) (auto split: option.splits)
    from False have far: "\<forall>d'. measured_dist lb a = Some d' \<longrightarrow> bd \<le> d'"
      by (meson not_le)
    from Cons.IH [of best bd] show ?thesis
    proof
      assume "nearest_loop lb rs (best, bd) = best
          \<and> (\<forall>x\<in>set rs. \<forall>d. measured_dist lb x = Some d \<longrightarrow> bd \<le> d)"
      then show ?thesis using step far by simp
    next
      assume "\<exists>pre r post d2. rs = pre @ r # post \<and> nearest_loop lb rs (best, bd) = Some r
        \<and> measured_dist lb r = Some d2 \<and> d2 < bd
        \<and> (\<forall>x\<in>set pre. \<forall>d'. measured_dist lb x = Some d' \<longrightarrow> d2 < d')
        \<and> (\<forall>x\<in>set post. \<forall>d'. measured_dist lb x = Some d' \<longrightarrow> d2 \<le> d')"
      then obtain pre r post d2 where h: "rs = pre @ r # post"
        "nearest_loop lb rs (best, bd) = Some r" "measured_dist lb r = Some d2" "d2 < bd"
        "\<forall>x\<in>set pre. \<forall>d'. measured_dist lb x = Some d' \<longrightarrow> d2 < d'"
        "\<forall>x\<in>set post. \<forall>d'. measured_dist lb x = Some d' \<longrightarrow> d2 \<le> d'"
        by blast
      have "a # rs = (a # pre) @ r # post \<and> nearest_loop lb (a # rs) (best, bd) = Some r
        \<and> measured_dist lb r = Some d2 \<and> d2 < bd
        \<and> (\<forall>x\<in>set (a # pre). \<forall>d'. measured_dist lb x = Some d' \<longrightarrow> d2 < d')
        \<and> (\<forall>x\<in>set post. \<forall>d'. measured_dist lb x = Some d' \<longrightarrow> d2 \<le> d')"
        using h far step by auto
      then show ?thesis by blast
    qed
  qed
qed

lemma find_nearest_none_iff:
  "find_nearest_input_region lb regions cap = None
     \<longleftrightarrow> (\<forall>x\<in>set regions. \<forall>d. measured_dist lb x = Some d \<longrightarrow> cap \<le> d)"
proof
  assume "find_nearest_input_region lb regions cap = None"
  then show "\<forall>x\<in>set regions. \<forall>d. measured_dist lb x = Some d \<longrightarrow> cap \<le> d"
    using nearest_loop_char [of lb regions None cap]
    by (auto simp: find_nearest_input_region_def)
next
  assume far: "\<forall>x\<in>set regions. \<forall>d. measured_dist lb x = Some d \<longrightarrow> cap \<le> d"
  from nearest_loop_char [of lb regions None cap]
  show "find_nearest_input_region lb regions cap = None"
  proof
    assume "nearest_loop lb regions (None, cap) = None
          \<and> (\<forall>x\<in>set regions. \<forall>d. measured_dist lb x = Some d \<longrightarrow> cap \<le> d)"
    then show ?thesis by (simp add: find_nearest_input_region_def)
  next
    assume "\<exists>pre r post d. regions = pre @ r # post \<and> nearest_loop lb regions (None, cap) = Some r
        \<and> measured_dist lb r = Some d \<and> d < cap
        \<and> (\<forall>x\<in>set pre. \<forall>d'. measured_dist lb x = Some d' \<longrightarrow> d < d')
        \<and> (\<forall>x\<in>set post. \<forall>d'. measured_dist lb x = Some d' \<longrightarrow> d \<le> d')"
    then obtain pre r post d where "regions = pre @ r # post" "measured_dist lb r = Some d" "d < cap"
      by blast
    with far show ?thesis by fastforce
  qed
qed

lemma find_nearest_some:
  assumes "find_nearest_input_region lb regions cap = Some r"
  shows "\<exists>pre post d. regions = pre @ r # post \<and> measured_dist lb r = Some d \<and> d < cap
        \<and> (\<forall>x\<in>set pre. \<forall>d'. measured_dist lb x = Some d' \<longrightarrow> d < d')
        \<and> (\<forall>x\<in>set post. \<forall>d'. measured_dist lb x = Some d' \<longrightarrow> d \<le> d')"
  using nearest_loop_char [of lb regions None cap] assms
  by (auto simp: find_nearest_input_region_def)

lemma scale_08_floor: "0 \<le> w \<Longrightarrow> scale_08 w = \<lfloor>(4 / 5 :: rat) * of_int w\<rfloor>"
proof -
  assume "0 \<le> w"
  have "(4 / 5 :: rat) * of_int w = of_int (4 * w) / of_int 5" by simp
  then have "\<lfloor>(4 / 5 :: rat) * of_int w\<rfloor> = (4 * w) div 5"
    by (simp only: floor_divide_of_int_eq)
  with \<open>0 \<le> w\<close> show ?thesis by (simp add: scale_08_def)
qed

lemma infer_answer_region_eq:
  "infer_answer_region (lx1, ly1, lx2, ly2) w = (lx2 + 10, ly1, min (lx2 + 400) (scale_08 w), ly2)"
  by (simp add: infer_answer_region_def Let_def)


text \<open>
  C3, as the code has it. Each candidate is measured once (\<open>measured_dist\<close>): by its
  horizontal gap when it passes the same-row test, otherwise by its vertical gap when it
  passes the below test. The associator returns no region exactly when no candidate
  measures under the cap. Otherwise it returns a candidate that measures under the cap,
  such that every candidate before it in the list measures strictly more and every
  candidate after it measures at least as much: the smallest measure, the first
  encountered on ties. The field builders use the candidate found under the cap of 200,
  and otherwise the inferred region \<open>(x2 + 10, y1, min (x2 + 400) (int (0.8 * width)), y2)\<close>
  of the label \<open>(x1, y1, x2, y2)\<close>, the product being truncated to an integer.
\<close>

theorem nearest_region_selected:
  "(find_nearest_input_region lb regions cap = None
      \<longleftrightarrow> (\<forall>x\<in>set regions. \<forall>d. measured_dist lb x = Some d \<longrightarrow> cap \<le> d))
   \<and> (\<forall>r. find_nearest_input_region lb regions cap = Some r \<longrightarrow>
         (\<exists>pre post d. regions = pre @ r # post \<and> measured_dist lb r = Some d \<and> d < cap
            \<and> (\<forall>x\<in>set pre. \<forall>d'. measured_dist lb x = Some d' \<longrightarrow> d < d')
            \<and> (\<forall>x\<in>set post. \<forall>d'. measured_dist lb x = Some d' \<longrightarrow> d \<le> d')))
   \<and> (\<forall>r. find_nearest_input_region lb regions 200 = Some r \<longrightarrow> resolve_target lb regions w = r)
   \<and> ((\<forall>x\<in>set regions. \<forall>d. measured_dist lb x = Some d \<longrightarrow> 200 \<le> d)
        \<longrightarrow> resolve_target lb regions w = infer_answer_region lb w)
   \<and> infer_answer_region (lx1, ly1, lx2, ly2) w
        = (lx2 + 10, ly1, min (lx2 + 400) (scale_08 w), ly2)
   \<and> (0 \<le> w \<longrightarrow> scale_08 w = \<lfloor>(4 / 5 :: rat) * of_int w\<rfloor>)"
proof (intro conjI allI impI)
  show "find_nearest_input_region lb regions cap = None
      \<longleftrightarrow> (\<forall>x\<in>set regions. \<forall>d. measured_dist lb x = Some d \<longrightarrow> cap \<le> d)"
    by (rule find_nearest_none_iff)
  show "\<exists>pre post d. regions = pre @ r # post \<and> measured_dist lb r = Some d \<and> d < cap
            \<and> (\<forall>x\<in>set pre. \<forall>d'. measured_dist lb x = Some d' \<longrightarrow> d < d')
            \<and> (\<forall>x\<in>set post. \<forall>d'. measured_dist lb x = Some d' \<longrightarrow> d \<le> d')"
    if "find_nearest_input_region lb regions cap = Some r" for r
    using that by (rule find_nearest_some)
  show "resolve_target lb regions w = r"
    if "find_nearest_input_region lb regions 200 = Some r" for r
    using that by (simp add: resolve_target_def)
  show "resolve_target lb regions w = infer_answer_region lb w"
    if "\<forall>x\<in>set regions. \<forall>d. measured_dist lb x = Some d \<longrightarrow> 200 \<le> d"
  proof -
    from that have "find_nearest_input_region lb regions 200 = None"
      by (simp only: find_nearest_none_iff)
    then show ?thesis by (simp add: resolve_target_def)
  qed
  show "infer_answer_region (lx1, ly1, lx2, ly2) w
        = (lx2 + 10, ly1, min (lx2 + 400) (scale_08 w), ly2)"
    by (rule infer_answer_region_eq)
  show "scale_08 w = \<lfloor>(4 / 5 :: rat) * of_int w\<rfloor>" if "0 \<le> w"
    using that by (rule scale_08_floor)
qed

theorem nearest_region_selected_witness:
  "find_nearest_input_region (50, 100, 120, 120) [(130, 95, 400, 121)] 200
     = Some (130, 95, 400, 121)
   \<and> (\<exists>pre post d. [(130, 95, 400, 121)] = pre @ (130, 95, 400, 121) # post
        \<and> measured_dist (50, 100, 120, 120) (130, 95, 400, 121) = Some d \<and> d < 200
        \<and> (\<forall>x\<in>set pre. \<forall>d'. measured_dist (50, 100, 120, 120) x = Some d' \<longrightarrow> d < d')
        \<and> (\<forall>x\<in>set post. \<forall>d'. measured_dist (50, 100, 120, 120) x = Some d' \<longrightarrow> d \<le> d'))
   \<and> resolve_target (50, 100, 120, 120) [(130, 95, 400, 121)] 1000 = (130, 95, 400, 121)
   \<and> measured_dist (50, 100, 120, 120) (370, 95, 400, 121) = Some 250
   \<and> resolve_target (50, 100, 120, 120) [(370, 95, 400, 121)] 1000 = (130, 100, 520, 120)
   \<and> (0::int) \<le> 1000 \<and> scale_08 1000 = \<lfloor>(4 / 5 :: rat) * of_int 1000\<rfloor>"
proof -
  note T1 = nearest_region_selected
    [of "(50, 100, 120, 120)" "[(130, 95, 400, 121)]" 200 1000 50 100 120 120]
  note T2 = nearest_region_selected
    [of "(50, 100, 120, 120)" "[(370, 95, 400, 121)]" 200 1000 50 100 120 120]
  have a: "find_nearest_input_region (50, 100, 120, 120) [(130, 95, 400, 121)] 200
     = Some (130, 95, 400, 121)"
    by (simp add: find_nearest_input_region_def center_y_def)
  have b: "\<forall>x\<in>set [(370, 95, 400, 121)].
         \<forall>d. measured_dist (50, 100, 120, 120) x = Some d \<longrightarrow> 200 \<le> d"
    by (simp add: measured_dist_def same_row_def below_def row_gap_def center_y_def)
  have b': "measured_dist (50, 100, 120, 120) (370, 95, 400, 121) = Some 250"
    by (simp add: measured_dist_def same_row_def below_def row_gap_def center_y_def)
  have c: "infer_answer_region (50, 100, 120, 120) 1000 = (130, 100, 520, 120)"
    by (simp add: infer_answer_region_def scale_08_def)
  have w: "(0::int) \<le> 1000" by simp
  from T1 a have p1: "\<exists>pre post d. [(130, 95, 400, 121)] = pre @ (130, 95, 400, 121) # post
        \<and> measured_dist (50, 100, 120, 120) (130, 95, 400, 121) = Some d \<and> d < 200
        \<and> (\<forall>x\<in>set pre. \<forall>d'. measured_dist (50, 100, 120, 120) x = Some d' \<longrightarrow> d < d')
        \<and> (\<forall>x\<in>set post. \<forall>d'. measured_dist (50, 100, 120, 120) x = Some d' \<longrightarrow> d \<le> d')"
    by blast
  from T1 a have p2: "resolve_target (50, 100, 120, 120) [(130, 95, 400, 121)] 1000
      = (130, 95, 400, 121)"
    by blast
  from T2 b c have p3: "resolve_target (50, 100, 120, 120) [(370, 95, 400, 121)] 1000
      = (130, 100, 520, 120)"
    by metis
  from T2 w have p4: "scale_08 1000 = \<lfloor>(4 / 5 :: rat) * of_int 1000\<rfloor>"
    by blast
  from a p1 p2 b' p3 w p4 show ?thesis by (intro conjI)
qed

text \<open>
  A candidate that passes both tests is measured by its horizontal gap only. Here the
  first candidate lies 40 to the right and 1 below the label, the second 20 to the right:
  the code returns the second, the smallest distance over both geometries belongs to the
  first.
\<close>

theorem nearest_region_geometry_counterexample:
  "find_nearest_input_region (0, 0, 10, 10) [(50, 11, 100, 20), (30, 0, 60, 10)] 200
     = Some (30, 0, 60, 10)
   \<and> spec_nearest_region (0, 0, 10, 10) [(50, 11, 100, 20), (30, 0, 60, 10)] 200
     = Some (50, 11, 100, 20)
   \<and> geometry_dists (0, 0, 10, 10) (50, 11, 100, 20) = [40, 1]
   \<and> geometry_dists (0, 0, 10, 10) (30, 0, 60, 10) = [20]"
  by (simp add: find_nearest_input_region_def spec_nearest_region_def least_geometry_dist_def
      geometry_dists_def same_row_def below_def row_gap_def below_gap_def center_y_def)

section \<open>Field ordering\<close>

lemma assign_ids_frame:
  "assign_ids i rs h r = (h r)\<lparr>field_id := field_id (assign_ids i rs h r)\<rparr>"
proof (induction rs arbitrary: i h)
  case Nil
  show ?case by simp
next
  case (Cons a rs)
  have "assign_ids i (a # rs) h r = assign_ids (Suc i) rs (h(a := (h a)\<lparr>field_id := format_id i\<rparr>)) r"
    by simp
  also have "\<dots> = ((h(a := (h a)\<lparr>field_id := format_id i\<rparr>)) r)
      \<lparr>field_id := field_id (assign_ids (Suc i) rs (h(a := (h a)\<lparr>field_id := format_id i\<rparr>)) r)\<rparr>"
    by (rule Cons.IH)
  also have "\<dots> = (h r)\<lparr>field_id := field_id (assign_ids (Suc i) rs (h(a := (h a)\<lparr>field_id := format_id i\<rparr>)) r)\<rparr>"
    by simp
  finally show ?case by simp
qed

lemma assign_ids_other: "r \<notin> set rs \<Longrightarrow> assign_ids i rs h r = h r"
  by (induction rs arbitrary: i h) auto

lemma assign_ids_nth:
  "distinct rs \<Longrightarrow> j < length rs \<Longrightarrow> field_id (assign_ids i rs h (rs ! j)) = format_id (i + j)"
proof (induction rs arbitrary: i h j)
  case Nil
  then show ?case by simp
next
  case (Cons a rs)
  show ?case
  proof (cases j)
    case 0
    with Cons.prems show ?thesis by (simp add: assign_ids_other)
  next
    case (Suc k)
    with Cons.prems Cons.IH [of k "Suc i"] show ?thesis by simp
  qed
qed

lemma assign_ids_mem:
  "r \<in> set rs \<Longrightarrow> \<exists>j<length rs. rs ! j = r \<and> field_id (assign_ids i rs h r) = format_id (i + j)"
proof (induction rs arbitrary: i h)
  case Nil
  then show ?case by simp
next
  case (Cons a rs)
  show ?case
  proof (cases "r \<in> set rs")
    case True
    from Cons.IH [OF True, of "Suc i" "h(a := (h a)\<lparr>field_id := format_id i\<rparr>)"]
    obtain j where j: "j < length rs" "rs ! j = r"
      "field_id (assign_ids (Suc i) rs (h(a := (h a)\<lparr>field_id := format_id i\<rparr>)) r) = format_id (Suc i + j)"
      by blast
    then have "Suc j < length (a # rs) \<and> (a # rs) ! Suc j = r
        \<and> field_id (assign_ids i (a # rs) h r) = format_id (i + Suc j)"
      by simp
    then show ?thesis by blast
  next
    case False
    with Cons.prems have "r = a" by simp
    with False have "0 < length (a # rs) \<and> (a # rs) ! 0 = r
        \<and> field_id (assign_ids i (a # rs) h r) = format_id (i + 0)"
      by (simp add: assign_ids_other)
    then show ?thesis by blast
  qed
qed

lemma assign_ids_sort_key:
  "field_sort_key (assign_ids i rs h r) = field_sort_key (h r)"
  by (subst assign_ids_frame) (simp add: field_sort_key_def)

lemma decimal_value:
  "foldl (\<lambda>a c. 10 * a + (of_char c - 48)) 0 (decimal n) = n"
proof (induction n rule: decimal.induct)
  case (1 n)
  show ?case
  proof (cases "n < 10")
    case True
    then show ?thesis by (subst decimal.simps) simp
  next
    case False
    have m: "n mod 10 < 10" by simp
    from False 1 show ?thesis
      by (subst decimal.simps) (simp add: m)
  qed
qed

lemma leading_zeros_value:
  "foldl (\<lambda>a c. 10 * a + (of_char c - 48)) (0::nat) (replicate k CHR ''0'' @ s)
     = foldl (\<lambda>a c. 10 * a + (of_char c - 48)) 0 s"
  by (induction k) simp_all

lemma format_id_value:
  "foldl (\<lambda>a c. 10 * a + (of_char c - 48)) 0 (tl (format_id n)) = n"
  by (simp only: format_id_def list.sel leading_zeros_value decimal_value)

lemma format_id_inj: "format_id m = format_id n \<Longrightarrow> m = n"
  by (metis format_id_value)

lemma format_ids_distinct: "distinct (map format_id [0..<n])"
  by (simp add: distinct_map inj_on_def) (metis format_id_inj)


lemma triple_le:
  "((a::int, b::int, c::int) \<le> (a', b', c')) = (a < a' \<or> a = a' \<and> (b < b' \<or> b = b' \<and> c \<le> c'))"
  by (auto simp: less_eq_prod_def)

text \<open>
  C1, as the code has it. The returned list is the input list rearranged: it holds the
  references of the input, each as often as there. The keys
  \<open>(page_index, y1 div 20, x1)\<close> of its objects, read after the call, are sorted: for
  every adjacent pair the key does not decrease, in the lexicographic order of triples
  spelled out in the last conjunct. When no object occurs twice in the input list, the
  identifiers read in output order are \<open>format_id 0, format_id 1, ...\<close>, that is
  \<open>f000\<close>, \<open>f001\<close>, ..., whatever the identifiers were before; \<open>format_id\<close> is
  injective, so no identifier repeats.
\<close>

theorem order_fields_sorted_ids:
  "order_fields h field_refs = (h', ordered) \<Longrightarrow>
     mset ordered = mset field_refs
     \<and> length ordered = length field_refs
     \<and> sorted (map (\<lambda>r. field_sort_key (h' r)) ordered)
     \<and> (\<forall>i. Suc i < length ordered \<longrightarrow>
           field_sort_key (h' (ordered ! i)) \<le> field_sort_key (h' (ordered ! Suc i)))
     \<and> (distinct field_refs \<longrightarrow>
           map (\<lambda>r. field_id (h' r)) ordered = map format_id [0..<length ordered]
           \<and> (\<forall>i<length ordered. field_id (h' (ordered ! i)) = format_id i)
           \<and> distinct (map (\<lambda>r. field_id (h' r)) ordered))
     \<and> (\<forall>m n. format_id m = format_id n \<longrightarrow> m = n)
     \<and> format_id 0 = ''f000'' \<and> format_id 1 = ''f001'' \<and> format_id 12 = ''f012''
     \<and> format_id 999 = ''f999'' \<and> format_id 1000 = ''f1000''
     \<and> (\<forall>a b c a' b' c'. ((a::int, b::int, c::int) \<le> (a', b', c'))
           = (a < a' \<or> a = a' \<and> (b < b' \<or> b = b' \<and> c \<le> c')))"
proof -
  assume run: "order_fields h field_refs = (h', ordered)"
  then have ord: "ordered = sort_key (\<lambda>r. field_sort_key (h r)) field_refs"
    and h': "h' = assign_ids 0 ordered h"
    by (auto simp: order_fields_def Let_def)
  have len: "length ordered = length field_refs" by (simp add: ord)
  have perm: "mset ordered = mset field_refs" by (simp add: ord)
  have keys: "map (\<lambda>r. field_sort_key (h' r)) ordered = map (\<lambda>r. field_sort_key (h r)) ordered"
    by (simp add: h' assign_ids_sort_key)
  have srt: "sorted (map (\<lambda>r. field_sort_key (h' r)) ordered)"
  proof -
    have "sorted (map (\<lambda>r. field_sort_key (h r)) ordered)"
      unfolding ord by (rule sorted_sort_key)
    then show ?thesis by (simp only: keys)
  qed
  have adj: "\<forall>i. Suc i < length ordered \<longrightarrow>
           field_sort_key (h' (ordered ! i)) \<le> field_sort_key (h' (ordered ! Suc i))"
  proof (intro allI impI)
    fix i assume i: "Suc i < length ordered"
    from srt i have "map (\<lambda>r. field_sort_key (h' r)) ordered ! i
        \<le> map (\<lambda>r. field_sort_key (h' r)) ordered ! Suc i"
      by (intro sorted_nth_mono) simp_all
    with i show "field_sort_key (h' (ordered ! i)) \<le> field_sort_key (h' (ordered ! Suc i))"
      by simp
  qed
  have ids: "map (\<lambda>r. field_id (h' r)) ordered = map format_id [0..<length ordered]
           \<and> (\<forall>i<length ordered. field_id (h' (ordered ! i)) = format_id i)
           \<and> distinct (map (\<lambda>r. field_id (h' r)) ordered)" if d: "distinct field_refs"
  proof -
    from d have dist_o: "distinct ordered" by (simp add: ord)
    have nth: "\<forall>i<length ordered. field_id (h' (ordered ! i)) = format_id i"
      using assign_ids_nth [OF dist_o, of _ 0 h] by (simp add: h')
    then have eq: "map (\<lambda>r. field_id (h' r)) ordered = map format_id [0..<length ordered]"
      by (intro nth_equalityI) simp_all
    show ?thesis using nth eq format_ids_distinct [of "length ordered"] by simp
  qed
  have inj: "\<forall>m n. format_id m = format_id n \<longrightarrow> m = n"
    using format_id_inj by blast
  have ex: "format_id 0 = ''f000'' \<and> format_id 1 = ''f001'' \<and> format_id 12 = ''f012''
     \<and> format_id 999 = ''f999'' \<and> format_id 1000 = ''f1000''"
    by code_simp
  show ?thesis using perm len srt adj ids inj ex triple_le by blast
qed


theorem order_fields_sorted_ids_witness:
  "distinct [0::nat, 1]
   \<and> snd (order_fields example_heap [0, 1]) = [1, 0]
   \<and> mset (snd (order_fields example_heap [0, 1])) = mset [0, 1]
   \<and> map (\<lambda>r. field_sort_key (fst (order_fields example_heap [0, 1]) r))
         (snd (order_fields example_heap [0, 1])) = [(0, 3, 50), (0, 5, 50)]
   \<and> sorted (map (\<lambda>r. field_sort_key (fst (order_fields example_heap [0, 1]) r))
         (snd (order_fields example_heap [0, 1])))
   \<and> map (\<lambda>r. field_id (fst (order_fields example_heap [0, 1]) r))
         (snd (order_fields example_heap [0, 1])) = [''f000'', ''f001'']"
proof -
  have run: "order_fields example_heap [0, 1]
      = (fst (order_fields example_heap [0, 1]), snd (order_fields example_heap [0, 1]))"
    by simp
  note T = order_fields_sorted_ids [OF run]
  have d: "distinct [0::nat, 1]" by simp
  have o: "snd (order_fields example_heap [0, 1]) = [1, 0]" by code_simp
  have k: "map (\<lambda>r. field_sort_key (fst (order_fields example_heap [0, 1]) r))
         (snd (order_fields example_heap [0, 1])) = [(0, 3, 50), (0, 5, 50)]"
    by code_simp
  from T have s: "sorted (map (\<lambda>r. field_sort_key (fst (order_fields example_heap [0, 1]) r))
         (snd (order_fields example_heap [0, 1])))"
    by blast
  from T have p: "mset (snd (order_fields example_heap [0, 1])) = mset [0, 1]"
    by blast
  from T d have "map (\<lambda>r. field_id (fst (order_fields example_heap [0, 1]) r))
         (snd (order_fields example_heap [0, 1]))
       = map format_id [0..<length (snd (order_fields example_heap [0, 1]))]"
    by blast
  also have "\<dots> = map format_id [0..<length [1::nat, 0]]"
    by (simp only: o)
  also have "\<dots> = [''f000'', ''f001'']"
    by code_simp
  finally show ?thesis using d o p k s by blast
qed

text \<open>
  When the same object occurs twice in the input list, the loop writes its identifier
  twice and both positions of the output show the second one.
\<close>

theorem order_fields_alias_counterexample:
  "snd (order_fields example_heap [0, 0]) = [0, 0]
   \<and> map (\<lambda>r. field_id (fst (order_fields example_heap [0, 0]) r))
         (snd (order_fields example_heap [0, 0])) = [''f001'', ''f001'']"
  by code_simp

text \<open>
  C9: the returned list holds the references of the input list, each as often as there
  (a permutation: no object is copied or dropped). In the store after the call every
  object is the object before the call with at most its \<open>field_id\<close> rewritten: all
  other components are unchanged, and objects not in the list are untouched. Every
  object of the list carries, after the call, the identifier of a position at which it
  stands in the output, so whoever holds a reference to it reads the new identifier.
\<close>

theorem order_fields_in_place:
  "order_fields h field_refs = (h', ordered) \<Longrightarrow>
     mset ordered = mset field_refs
     \<and> (\<forall>r. h' r = (h r)\<lparr>field_id := field_id (h' r)\<rparr>)
     \<and> (\<forall>r. page_index (h' r) = page_index (h r) \<and> label_text (h' r) = label_text (h r)
            \<and> field_type (h' r) = field_type (h r) \<and> target_bbox (h' r) = target_bbox (h r)
            \<and> label_bbox (h' r) = label_bbox (h r) \<and> required (h' r) = required (h r)
            \<and> confidence (h' r) = confidence (h r) \<and> answer (h' r) = answer (h r)
            \<and> validation_hint (h' r) = validation_hint (h r))
     \<and> (\<forall>r. r \<notin> set field_refs \<longrightarrow> h' r = h r)
     \<and> (\<forall>r\<in>set field_refs.
           \<exists>i<length ordered. ordered ! i = r \<and> field_id (h' r) = format_id i)"
proof -
  assume run: "order_fields h field_refs = (h', ordered)"
  then have ord: "ordered = sort_key (\<lambda>r. field_sort_key (h r)) field_refs"
    and h': "h' = assign_ids 0 ordered h"
    by (auto simp: order_fields_def Let_def)
  have ms: "mset ordered = mset field_refs" by (simp add: ord)
  then have st: "set ordered = set field_refs" by (rule mset_eq_setD)
  have frame: "h' r = (h r)\<lparr>field_id := field_id (h' r)\<rparr>" for r
    unfolding h' by (rule assign_ids_frame)
  have comps: "page_index (h' r) = page_index (h r) \<and> label_text (h' r) = label_text (h r)
            \<and> field_type (h' r) = field_type (h r) \<and> target_bbox (h' r) = target_bbox (h r)
            \<and> label_bbox (h' r) = label_bbox (h r) \<and> required (h' r) = required (h r)
            \<and> confidence (h' r) = confidence (h r) \<and> answer (h' r) = answer (h r)
            \<and> validation_hint (h' r) = validation_hint (h r)" for r
    by (subst (1 2 3 4 5 6 7 8 9) frame [of r]) simp
  have other: "h' r = h r" if "r \<notin> set field_refs" for r
    using that by (simp add: h' st assign_ids_other)
  have seen: "\<exists>i<length ordered. ordered ! i = r \<and> field_id (h' r) = format_id i"
    if "r \<in> set field_refs" for r
    using assign_ids_mem [of r ordered 0 h] that by (simp add: h' st)
  show ?thesis using ms frame comps other seen by blast
qed

theorem order_fields_in_place_witness:
  "snd (order_fields example_heap [0, 1]) = [1, 0]
   \<and> mset (snd (order_fields example_heap [0, 1])) = mset [0, 1]
   \<and> fst (order_fields example_heap [0, 1]) 0 = (example_heap 0)\<lparr>field_id := ''f001''\<rparr>
   \<and> fst (order_fields example_heap [0, 1]) 1 = (example_heap 1)\<lparr>field_id := ''f000''\<rparr>
   \<and> fst (order_fields example_heap [0, 1]) 2 = example_heap 2"
proof -
  have run: "order_fields example_heap [0, 1]
      = (fst (order_fields example_heap [0, 1]), snd (order_fields example_heap [0, 1]))"
    by simp
  note T = order_fields_in_place [OF run]
  have o: "snd (order_fields example_heap [0, 1]) = [1, 0]" by code_simp
  from T have m: "mset (snd (order_fields example_heap [0, 1])) = mset [0, 1]" by blast
  have i0: "field_id (fst (order_fields example_heap [0, 1]) 0) = ''f001''" by code_simp
  have i1: "field_id (fst (order_fields example_heap [0, 1]) 1) = ''f000''" by code_simp
  from T have "fst (order_fields example_heap [0, 1]) 0
      = (example_heap 0)\<lparr>field_id := field_id (fst (order_fields example_heap [0, 1]) 0)\<rparr>"
    by blast
  then have f0: "fst (order_fields example_heap [0, 1]) 0 = (example_heap 0)\<lparr>field_id := ''f001''\<rparr>"
    by (simp only: i0)
  from T have "fst (order_fields example_heap [0, 1]) 1
      = (example_heap 1)\<lparr>field_id := field_id (fst (order_fields example_heap [0, 1]) 1)\<rparr>"
    by blast
  then have f1: "fst (order_fields example_heap [0, 1]) 1 = (example_heap 1)\<lparr>field_id := ''f000''\<rparr>"
    by (simp only: i1)
  have "(2::nat) \<notin> set [0, 1]" by simp
  with T have f2: "fst (order_fields example_heap [0, 1]) 2 = example_heap 2" by blast
  from o m f0 f1 f2 show ?thesis by (intro conjI)
qed

section \<open>Field fusion: deduplication\<close>

lemma find_remove1_other: "\<not> P x \<Longrightarrow> find P (remove1 x xs) = find P xs"
  by (induction xs) auto

lemma find_key_remove1:
  "distinct (map k xs) \<Longrightarrow> x \<in> set xs \<Longrightarrow> find (\<lambda>e. k e = k x) (remove1 x xs) = None"
proof (induction xs)
  case Nil
  then show ?case by simp
next
  case (Cons a xs)
  show ?case
  proof (cases "a = x")
    case True
    with Cons.prems show ?thesis by (auto simp: find_None_iff image_iff)
  next
    case False
    with Cons.prems have "x \<in> set xs" "k a \<noteq> k x" by auto
    with Cons False show ?thesis by auto
  qed
qed

lemma distinct_map_remove1: "distinct (map k xs) \<Longrightarrow> distinct (map k (remove1 x xs))"
  by (induction xs) (auto dest: notin_set_remove1 simp: image_iff)

lemma find_key_unique:
  "distinct (map k xs) \<Longrightarrow> e \<in> set xs \<Longrightarrow> find (\<lambda>x. k x = k e) xs = Some e"
  by (induction xs) (auto simp: image_iff)

lemma find_snoc:
  "find P (xs @ [x]) = (case find P xs of Some e \<Rightarrow> Some e | None \<Rightarrow> if P x then Some x else None)"
  by (induction xs) auto

lemma seen_of_fold:
  "distinct (map norm_key h) \<Longrightarrow>
     fold (\<lambda>f m. m(norm_key f \<mapsto> f)) h m0 k
       = (case find (\<lambda>e. norm_key e = k) h of Some e \<Rightarrow> Some e | None \<Rightarrow> m0 k)"
proof (induction h arbitrary: m0)
  case Nil
  show ?case by simp
next
  case (Cons a h)
  then have d: "distinct (map norm_key h)" and na: "norm_key a \<notin> norm_key ` set h" by auto
  have "fold (\<lambda>f m. m(norm_key f \<mapsto> f)) (a # h) m0 k
      = fold (\<lambda>f m. m(norm_key f \<mapsto> f)) h (m0(norm_key a \<mapsto> a)) k"
    by (simp only: fold_simps comp_apply)
  also have "\<dots> = (case find (\<lambda>e. norm_key e = k) h of Some e \<Rightarrow> Some e
                       | None \<Rightarrow> (m0(norm_key a \<mapsto> a)) k)"
    by (rule Cons.IH [OF d])
  finally have eq: "fold (\<lambda>f m. m(norm_key f \<mapsto> f)) (a # h) m0 k
      = (case find (\<lambda>e. norm_key e = k) h of Some e \<Rightarrow> Some e
         | None \<Rightarrow> (m0(norm_key a \<mapsto> a)) k)" .
  show ?case
  proof (cases "norm_key a = k")
    case True
    with na have "find (\<lambda>e. norm_key e = k) h = None" by (auto simp: find_None_iff image_iff)
    with True show ?thesis unfolding eq by simp
  next
    case False
    then show ?thesis unfolding eq by (simp split: option.split)
  qed
qed

lemma seen_of_find:
  "distinct (map norm_key h) \<Longrightarrow> seen_of h k = find (\<lambda>e. norm_key e = k) h"
  by (simp add: seen_of_def seen_of_fold split: option.split)

lemma seen_fold_member:
  "fold (\<lambda>f m. m(norm_key f \<mapsto> f)) h m0 k = Some e \<Longrightarrow>
     (e \<in> set h \<and> norm_key e = k) \<or> m0 k = Some e"
proof (induction h arbitrary: m0)
  case Nil
  then show ?case by simp
next
  case (Cons a h)
  have "fold (\<lambda>f m. m(norm_key f \<mapsto> f)) (a # h) m0 k
      = fold (\<lambda>f m. m(norm_key f \<mapsto> f)) h (m0(norm_key a \<mapsto> a)) k"
    by (simp only: fold_simps comp_apply)
  with Cons.prems have "fold (\<lambda>f m. m(norm_key f \<mapsto> f)) h (m0(norm_key a \<mapsto> a)) k = Some e"
    by (simp only:)
  from Cons.IH [OF this]
  have "(e \<in> set h \<and> norm_key e = k) \<or> (m0(norm_key a \<mapsto> a)) k = Some e" .
  then show ?case by (auto split: if_splits)
qed

lemma seen_of_member: "seen_of h k = Some e \<Longrightarrow> e \<in> set h \<and> norm_key e = k"
  using seen_fold_member [of h Map.empty k e] by (simp add: seen_of_def)

lemma merge_loop_refines:
  "distinct (map norm_key merged) \<Longrightarrow> (\<And>k. seen k = find (\<lambda>e. norm_key e = k) merged) \<Longrightarrow>
     merge_loop l (merged, seen) = Some (foldl fuse_step merged l)"
proof (induction l arbitrary: merged seen)
  case Nil
  show ?case by simp
next
  case (Cons f rest)
  note d = Cons.prems(1) and s = Cons.prems(2)
  show ?case
  proof (cases "norm_key f = []")
    case True
    then have step: "merge_loop (f # rest) (merged, seen) = merge_loop rest (merged, seen)"
      by simp
    from True have fs: "fuse_step merged f = merged" by (simp add: fuse_step_def)
    show ?thesis by (simp only: step foldl_Cons fs Cons.IH [OF d s])
  next
    case key: False
    show ?thesis
    proof (cases "find (\<lambda>e. norm_key e = norm_key f) merged")
      case None
      then have new: "norm_key f \<notin> norm_key ` set merged" by (auto simp: find_None_iff image_iff)
      have step: "merge_loop (f # rest) (merged, seen)
          = merge_loop rest (merged @ [f], seen(norm_key f \<mapsto> f))"
        using key None s [of "norm_key f"] by simp
      have fs: "fuse_step merged f = merged @ [f]"
        using key None by (simp add: fuse_step_def)
      have d': "distinct (map norm_key (merged @ [f]))" using d new by simp
      have s': "(seen(norm_key f \<mapsto> f)) k = find (\<lambda>e. norm_key e = k) (merged @ [f])" for k
        using None s [of k] by (cases "norm_key f = k") (auto simp: find_snoc split: option.splits)
      show ?thesis by (simp only: step foldl_Cons fs Cons.IH [OF d' s'])
    next
      case (Some ex)
      then have ex: "ex \<in> set merged" "norm_key ex = norm_key f"
        by (auto simp: find_Some_iff)
      show ?thesis
      proof (cases "confidence f > confidence ex")
        case True
        have step: "merge_loop (f # rest) (merged, seen)
            = merge_loop rest (remove1 ex merged @ [f], seen(norm_key f \<mapsto> f))"
          using key Some s [of "norm_key f"] True ex by (simp add: list_remove_def)
        have fs: "fuse_step merged f = remove1 ex merged @ [f]"
          using key Some True by (simp add: fuse_step_def)
        have gone: "find (\<lambda>e. norm_key e = norm_key f) (remove1 ex merged) = None"
          using find_key_remove1 [OF d ex(1)] ex(2) by simp
        then have new: "norm_key f \<notin> norm_key ` set (remove1 ex merged)"
          by (auto simp: find_None_iff image_iff)
        have d': "distinct (map norm_key (remove1 ex merged @ [f]))"
          using distinct_map_remove1 [OF d, of ex] new by simp
        have s': "(seen(norm_key f \<mapsto> f)) k
            = find (\<lambda>e. norm_key e = k) (remove1 ex merged @ [f])" for k
        proof (cases "norm_key f = k")
          case True
          with gone show ?thesis by (auto simp: find_snoc)
        next
          case False
          with ex have "find (\<lambda>e. norm_key e = k) (remove1 ex merged)
              = find (\<lambda>e. norm_key e = k) merged"
            by (intro find_remove1_other) simp
          with False s [of k] show ?thesis by (auto simp: find_snoc split: option.splits)
        qed
        show ?thesis by (simp only: step foldl_Cons fs Cons.IH [OF d' s'])
      next
        case False
        have step: "merge_loop (f # rest) (merged, seen) = merge_loop rest (merged, seen)"
          using key Some s [of "norm_key f"] False by simp
        have fs: "fuse_step merged f = merged"
          using key Some False by (simp add: fuse_step_def)
        show ?thesis by (simp only: step foldl_Cons fs Cons.IH [OF d s])
      qed
    qed
  qed
qed

lemma merge_fields_fold:
  "distinct (map norm_key h) \<Longrightarrow> merge_fields h l = Some (foldl fuse_step h l)"
  by (cases l) (simp_all add: merge_fields_def merge_loop_refines seen_of_find del: merge_loop.simps)


lemma fuse_step_cases:
  assumes "distinct (map norm_key m)"
  shows "(norm_key f = [] \<and> fuse_step m f = m)
    \<or> (norm_key f \<noteq> [] \<and> norm_key f \<notin> norm_key ` set m \<and> fuse_step m f = m @ [f])
    \<or> (\<exists>ex. norm_key f \<noteq> [] \<and> ex \<in> set m \<and> norm_key ex = norm_key f
           \<and> confidence ex < confidence f \<and> fuse_step m f = remove1 ex m @ [f])
    \<or> (\<exists>ex. norm_key f \<noteq> [] \<and> ex \<in> set m \<and> norm_key ex = norm_key f
           \<and> confidence f \<le> confidence ex \<and> fuse_step m f = m)"
proof (cases "norm_key f = []")
  case True
  then show ?thesis by (simp add: fuse_step_def)
next
  case key: False
  show ?thesis
  proof (cases "find (\<lambda>e. norm_key e = norm_key f) m")
    case None
    then have "norm_key f \<notin> norm_key ` set m" by (auto simp: find_None_iff image_iff)
    with key None show ?thesis by (simp add: fuse_step_def)
  next
    case (Some ex)
    then have ex: "ex \<in> set m" "norm_key ex = norm_key f" by (auto simp: find_Some_iff)
    show ?thesis
    proof (cases "confidence ex < confidence f")
      case True
      with key Some have "fuse_step m f = remove1 ex m @ [f]" by (simp add: fuse_step_def)
      with key ex True show ?thesis by blast
    next
      case False
      with key Some have "fuse_step m f = m" by (simp add: fuse_step_def)
      moreover from False have "confidence f \<le> confidence ex" by simp
      ultimately show ?thesis using key ex by blast
    qed
  qed
qed

lemma remove1_keys:
  assumes "distinct (map norm_key m)" "ex \<in> set m"
  shows "norm_key ` set (remove1 ex m) = norm_key ` set m - {norm_key ex}"
proof -
  from assms(1) have dm: "distinct m" by (simp add: distinct_map)
  from assms(1) have inj: "inj_on norm_key (set m)" by (simp add: distinct_map)
  have "set (remove1 ex m) = set m - {ex}" using dm by simp
  then have "norm_key ` set (remove1 ex m) = norm_key ` (set m - {ex})" by simp
  also have "\<dots> = norm_key ` set m - norm_key ` {ex}"
    using inj assms(2) by (intro inj_on_image_set_diff [of norm_key "set m"]) auto
  finally show ?thesis by simp
qed

lemma fuse_step_distinct:
  assumes "distinct (map norm_key m)"
  shows "distinct (map norm_key (fuse_step m f))"
  using fuse_step_cases [OF assms, of f]
proof (elim disjE exE conjE)
  fix ex
  assume ex: "ex \<in> set m" "norm_key ex = norm_key f" and fs: "fuse_step m f = remove1 ex m @ [f]"
  have "norm_key f \<notin> norm_key ` set (remove1 ex m)"
    using remove1_keys [OF assms ex(1)] ex(2) by simp
  then show ?thesis using distinct_map_remove1 [OF assms, of ex] fs by simp
qed (use assms in auto)

lemma fuse_step_set:
  assumes "distinct (map norm_key m)"
  shows "set (fuse_step m f) \<subseteq> set m \<union> (if norm_key f = [] then {} else {f})"
  using fuse_step_cases [OF assms, of f]
  by (elim disjE exE conjE) (auto dest: notin_set_remove1)

lemma fuse_step_keys:
  assumes "distinct (map norm_key m)"
  shows "norm_key ` set (fuse_step m f)
     = norm_key ` set m \<union> (if norm_key f = [] then {} else {norm_key f})"
  using fuse_step_cases [OF assms, of f]
proof (elim disjE exE conjE)
  fix ex
  assume key: "norm_key f \<noteq> []" and ex: "ex \<in> set m" "norm_key ex = norm_key f"
    and fs: "fuse_step m f = remove1 ex m @ [f]"
  have "norm_key ` set (fuse_step m f) = insert (norm_key f) (norm_key ` set m - {norm_key f})"
    using remove1_keys [OF assms ex(1)] ex(2) fs by simp
  also have "\<dots> = norm_key ` set m \<union> {norm_key f}" by auto
  finally show ?thesis using key by simp
qed (auto intro: rev_image_eqI)

lemma fuse_step_dominates:
  assumes d: "distinct (map norm_key m)" and g: "g \<in> set m \<or> (g = f \<and> norm_key f \<noteq> [])"
  shows "\<exists>g'\<in>set (fuse_step m f). norm_key g' = norm_key g \<and> confidence g \<le> confidence g'"
  using fuse_step_cases [OF d, of f]
proof (elim disjE exE conjE)
  assume "norm_key f = []" "fuse_step m f = m"
  with g show ?thesis by auto
next
  assume "fuse_step m f = m @ [f]"
  with g show ?thesis by auto
next
  fix ex
  assume ex: "ex \<in> set m" "norm_key ex = norm_key f" "confidence ex < confidence f"
    and fs: "fuse_step m f = remove1 ex m @ [f]"
  from d have dm: "distinct m" by (simp add: distinct_map)
  show ?thesis
  proof (cases "g = ex \<or> g = f")
    case True
    then have "norm_key f = norm_key g \<and> confidence g \<le> confidence f" using ex by auto
    moreover have "f \<in> set (fuse_step m f)" using fs by simp
    ultimately show ?thesis by blast
  next
    case False
    with g dm have "g \<in> set (fuse_step m f)" using fs by auto
    then show ?thesis by blast
  qed
next
  fix ex
  assume ex: "ex \<in> set m" "norm_key ex = norm_key f" "confidence f \<le> confidence ex"
    and fs: "fuse_step m f = m"
  show ?thesis
  proof (cases "g \<in> set m")
    case True
    with fs show ?thesis by auto
  next
    case False
    with g have "g = f" by simp
    with ex fs show ?thesis by auto
  qed
qed

lemma fuse_step_idem:
  assumes d: "distinct (map norm_key m)"
  shows "fuse_step (fuse_step m f) f = fuse_step m f"
  using fuse_step_cases [OF d, of f]
proof (elim disjE exE conjE)
  assume "norm_key f = []" "fuse_step m f = m"
  then show ?thesis by simp
next
  assume key: "norm_key f \<noteq> []" and new: "norm_key f \<notin> norm_key ` set m"
    and fs: "fuse_step m f = m @ [f]"
  from new have "find (\<lambda>e. norm_key e = norm_key f) m = None"
    by (auto simp: find_None_iff image_iff)
  then have "find (\<lambda>e. norm_key e = norm_key f) (m @ [f]) = Some f" by (simp add: find_snoc)
  with key have "fuse_step (m @ [f]) f = m @ [f]" by (simp add: fuse_step_def)
  with fs show ?thesis by simp
next
  fix ex
  assume key: "norm_key f \<noteq> []" and ex: "ex \<in> set m" "norm_key ex = norm_key f"
    and fs: "fuse_step m f = remove1 ex m @ [f]"
  have "find (\<lambda>e. norm_key e = norm_key f) (remove1 ex m) = None"
    using find_key_remove1 [OF d ex(1)] ex(2) by simp
  then have "find (\<lambda>e. norm_key e = norm_key f) (remove1 ex m @ [f]) = Some f"
    by (simp add: find_snoc)
  with key have "fuse_step (remove1 ex m @ [f]) f = remove1 ex m @ [f]"
    by (simp add: fuse_step_def)
  with fs show ?thesis by simp
next
  fix ex
  assume "fuse_step m f = m"
  then show ?thesis by simp
qed

lemma fused_distinct:
  "distinct (map norm_key m) \<Longrightarrow> distinct (map norm_key (foldl fuse_step m l))"
  by (induction l arbitrary: m) (simp_all add: fuse_step_distinct)

lemma fused_set:
  "distinct (map norm_key m) \<Longrightarrow>
     set (foldl fuse_step m l) \<subseteq> set m \<union> {f \<in> set l. norm_key f \<noteq> []}"
proof (induction l arbitrary: m)
  case Nil
  show ?case by simp
next
  case (Cons f rest)
  from Cons.IH [OF fuse_step_distinct [OF Cons.prems, of f]] fuse_step_set [OF Cons.prems, of f]
  show ?case by (auto split: if_splits)
qed

lemma fused_keys:
  "distinct (map norm_key m) \<Longrightarrow>
     norm_key ` set (foldl fuse_step m l) = norm_key ` set m \<union> (norm_key ` set l - {[]})"
proof (induction l arbitrary: m)
  case Nil
  show ?case by simp
next
  case (Cons f rest)
  from Cons.IH [OF fuse_step_distinct [OF Cons.prems, of f]] fuse_step_keys [OF Cons.prems, of f]
  show ?case by (auto split: if_splits)
qed

lemma fused_best:
  "distinct (map norm_key m) \<Longrightarrow> e \<in> set (foldl fuse_step m l) \<Longrightarrow>
     g \<in> set m \<or> (g \<in> set l \<and> norm_key g \<noteq> []) \<Longrightarrow> norm_key g = norm_key e \<Longrightarrow>
     confidence g \<le> confidence e"
proof (induction l arbitrary: m g)
  case Nil
  then have "inj_on norm_key (set m)" "e \<in> set m" "g \<in> set m" by (simp_all add: distinct_map)
  with Nil.prems(4) have "g = e" by (rule_tac inj_onD)
  then show ?case by simp
next
  case (Cons f rest)
  note d' = fuse_step_distinct [OF Cons.prems(1), of f]
  from Cons.prems(2) have e: "e \<in> set (foldl fuse_step (fuse_step m f) rest)" by simp
  show ?case
  proof (cases "g \<in> set rest \<and> norm_key g \<noteq> []")
    case True
    then show ?thesis using Cons.IH [OF d' e _ Cons.prems(4)] by blast
  next
    case False
    with Cons.prems(3) have "g \<in> set m \<or> (g = f \<and> norm_key f \<noteq> [])" by auto
    from fuse_step_dominates [OF Cons.prems(1) this]
    obtain g' where g': "g' \<in> set (fuse_step m f)" "norm_key g' = norm_key g"
      "confidence g \<le> confidence g'" by blast
    from g' Cons.prems(4) have "norm_key g' = norm_key e" by simp
    with Cons.IH [OF d' e _ this, of ] g'(1) have "confidence g' \<le> confidence e" by blast
    with g'(3) show ?thesis by simp
  qed
qed


lemma merge_single:
  "distinct (map norm_key h) \<Longrightarrow> merge_fields h [f] = Some (fuse_step h f)"
  by (simp add: merge_fields_fold)

lemma merge_single_unique:
  assumes d: "distinct (map norm_key h)" and e: "e \<in> set h" "norm_key e = norm_key f"
  shows "find (\<lambda>x. norm_key x = norm_key f) h = Some e"
  using find_key_unique [OF d e(1)] e(2) by simp

lemma merge_loop_set:
  "merge_loop l (m, s) = Some out \<Longrightarrow> set out \<subseteq> set m \<union> set l"
proof (induction l arbitrary: m s)
  case Nil
  then show ?case by simp
next
  case (Cons f rest)
  show ?case
  proof (cases "norm_key f = []")
    case True
    with Cons.prems have "merge_loop rest (m, s) = Some out" by simp
    from Cons.IH [OF this] show ?thesis by auto
  next
    case key: False
    show ?thesis
    proof (cases "s (norm_key f)")
      case None
      with key Cons.prems have "merge_loop rest (m @ [f], s(norm_key f \<mapsto> f)) = Some out"
        by simp
      from Cons.IH [OF this] show ?thesis by auto
    next
      case (Some ex)
      show ?thesis
      proof (cases "confidence ex < confidence f \<and> ex \<in> set m")
        case True
        with key Some Cons.prems
        have "merge_loop rest (remove1 ex m @ [f], s(norm_key f \<mapsto> f)) = Some out"
          by (simp add: list_remove_def)
        from Cons.IH [OF this] set_remove1_subset [of ex m] show ?thesis by auto
      next
        case False
        with key Some Cons.prems have "merge_loop rest (m, s) = Some out"
          by (auto simp: list_remove_def split: if_splits)
        from Cons.IH [OF this] show ?thesis by auto
      qed
    qed
  qed
qed

lemma merge_fields_set:
  "merge_fields h l = Some out \<Longrightarrow> set out \<subseteq> set h \<union> set l"
  by (cases l) (auto simp: merge_fields_def dest!: merge_loop_set simp del: merge_loop.simps)

text \<open>
  C4, as the code has it. For a heuristic list with pairwise distinct normalized keys
  and any external list, fusion returns a list (it never fails) in which no two entries
  share a normalized key. Its entries come from the heuristic list and from the
  external fields with a non-empty key, and its keys are those of the heuristic list
  together with the non-empty keys of the external list. The entry that survives for
  a key has a confidence at least that of every heuristic field and of every external
  field with a non-empty key that shares the key. For one external field: a strictly
  more confident field replaces the heuristic entry of its non-empty key and stands at
  the end of the list; a field that is not more confident leaves the list as it is; a
  field with a new non-empty key is appended; a field with an empty key is skipped.
  Fusing the same field twice, at once or again into the result, gives the result of
  fusing it once, with pairwise distinct keys.
\<close>

theorem merge_fields_dedup:
  assumes "distinct (map norm_key heuristic)"
  shows "(\<exists>out. merge_fields heuristic llm = Some out
          \<and> distinct (map norm_key out)
          \<and> set out \<subseteq> set heuristic \<union> {f \<in> set llm. norm_key f \<noteq> []}
          \<and> norm_key ` set out = norm_key ` set heuristic \<union> (norm_key ` set llm - {[]})
          \<and> (\<forall>e\<in>set out. \<forall>g\<in>set heuristic \<union> {f \<in> set llm. norm_key f \<noteq> []}.
                norm_key g = norm_key e \<longrightarrow> confidence g \<le> confidence e))
     \<and> (\<forall>e f. e \<in> set heuristic \<and> norm_key e = norm_key f \<and> norm_key f \<noteq> []
            \<and> confidence e < confidence f \<longrightarrow>
            merge_fields heuristic [f] = Some (remove1 e heuristic @ [f]))
     \<and> (\<forall>e f. e \<in> set heuristic \<and> norm_key e = norm_key f \<and> confidence f \<le> confidence e \<longrightarrow>
            merge_fields heuristic [f] = Some heuristic)
     \<and> (\<forall>f. norm_key f \<noteq> [] \<and> norm_key f \<notin> norm_key ` set heuristic \<longrightarrow>
            merge_fields heuristic [f] = Some (heuristic @ [f]))
     \<and> (\<forall>f. norm_key f = [] \<longrightarrow> merge_fields heuristic [f] = Some heuristic)
     \<and> (\<forall>f. \<exists>out. merge_fields heuristic [f] = Some out
            \<and> merge_fields heuristic [f, f] = Some out
            \<and> merge_fields out [f] = Some out
            \<and> distinct (map norm_key out))"
proof -
  note d = assms
  have run: "merge_fields heuristic llm = Some (foldl fuse_step heuristic llm)"
    by (rule merge_fields_fold [OF d])
  have best: "\<forall>e\<in>set (foldl fuse_step heuristic llm).
      \<forall>g\<in>set heuristic \<union> {f \<in> set llm. norm_key f \<noteq> []}.
        norm_key g = norm_key e \<longrightarrow> confidence g \<le> confidence e"
    using fused_best [OF d] by blast
  have p1: "\<exists>out. merge_fields heuristic llm = Some out
          \<and> distinct (map norm_key out)
          \<and> set out \<subseteq> set heuristic \<union> {f \<in> set llm. norm_key f \<noteq> []}
          \<and> norm_key ` set out = norm_key ` set heuristic \<union> (norm_key ` set llm - {[]})
          \<and> (\<forall>e\<in>set out. \<forall>g\<in>set heuristic \<union> {f \<in> set llm. norm_key f \<noteq> []}.
                norm_key g = norm_key e \<longrightarrow> confidence g \<le> confidence e)"
    using run fused_distinct [OF d, of llm] fused_set [OF d, of llm] fused_keys [OF d, of llm] best
    by blast
  have p2: "merge_fields heuristic [f] = Some (remove1 e heuristic @ [f])"
    if "e \<in> set heuristic \<and> norm_key e = norm_key f \<and> norm_key f \<noteq> []
            \<and> confidence e < confidence f" for e f
  proof -
    from that have "find (\<lambda>x. norm_key x = norm_key f) heuristic = Some e"
      by (intro merge_single_unique [OF d]) simp_all
    with that have "fuse_step heuristic f = remove1 e heuristic @ [f]"
      by (simp add: fuse_step_def)
    then show ?thesis by (simp only: merge_single [OF d])
  qed
  have p3: "merge_fields heuristic [f] = Some heuristic"
    if "e \<in> set heuristic \<and> norm_key e = norm_key f \<and> confidence f \<le> confidence e" for e f
  proof -
    from that have "find (\<lambda>x. norm_key x = norm_key f) heuristic = Some e"
      by (intro merge_single_unique [OF d]) simp_all
    with that have "fuse_step heuristic f = heuristic"
      by (simp add: fuse_step_def Let_def)
    then show ?thesis by (simp only: merge_single [OF d])
  qed
  have p4: "merge_fields heuristic [f] = Some (heuristic @ [f])"
    if "norm_key f \<noteq> [] \<and> norm_key f \<notin> norm_key ` set heuristic" for f
  proof -
    from that have "find (\<lambda>x. norm_key x = norm_key f) heuristic = None"
      by (auto simp: find_None_iff image_iff)
    with that have "fuse_step heuristic f = heuristic @ [f]"
      by (simp add: fuse_step_def)
    then show ?thesis by (simp only: merge_single [OF d])
  qed
  have p5: "merge_fields heuristic [f] = Some heuristic" if "norm_key f = []" for f
    using that by (simp add: merge_single [OF d] fuse_step_def)
  have p6: "\<exists>out. merge_fields heuristic [f] = Some out
            \<and> merge_fields heuristic [f, f] = Some out
            \<and> merge_fields out [f] = Some out
            \<and> distinct (map norm_key out)" for f
  proof -
    have d': "distinct (map norm_key (fuse_step heuristic f))"
      by (rule fuse_step_distinct [OF d])
    have a: "merge_fields heuristic [f] = Some (fuse_step heuristic f)"
      by (rule merge_single [OF d])
    have "merge_fields heuristic [f, f] = Some (fuse_step (fuse_step heuristic f) f)"
      by (simp add: merge_fields_fold [OF d])
    then have b: "merge_fields heuristic [f, f] = Some (fuse_step heuristic f)"
      by (simp only: fuse_step_idem [OF d])
    have "merge_fields (fuse_step heuristic f) [f] = Some (fuse_step (fuse_step heuristic f) f)"
      by (rule merge_single [OF d'])
    then have c: "merge_fields (fuse_step heuristic f) [f] = Some (fuse_step heuristic f)"
      by (simp only: fuse_step_idem [OF d])
    from a b c d' show ?thesis by blast
  qed
  from p1 p2 p3 p4 p5 p6 show ?thesis by blast
qed


theorem merge_fields_dedup_witness:
  "distinct (map norm_key [example_heap 0])
   \<and> norm_key (example_heap 0) = ''name''
   \<and> norm_key ((example_heap 1)\<lparr>label_text := '' NAME '', confidence := 9 / 10\<rparr>) = ''name''
   \<and> merge_fields [example_heap 0]
        [(example_heap 1)\<lparr>label_text := '' NAME '', confidence := 9 / 10\<rparr>]
       = Some [(example_heap 1)\<lparr>label_text := '' NAME '', confidence := 9 / 10\<rparr>]"
proof -
  have d: "distinct (map norm_key [example_heap 0])" by simp
  note T = merge_fields_dedup [OF d, of "[]"]
  have k0: "norm_key (example_heap 0) = ''name''" by code_simp
  have k1: "norm_key ((example_heap 1)\<lparr>label_text := '' NAME '', confidence := 9 / 10\<rparr>) = ''name''"
    by code_simp
  have c: "confidence (example_heap 0)
      < confidence ((example_heap 1)\<lparr>label_text := '' NAME '', confidence := 9 / 10\<rparr>)"
    by (simp add: example_heap_def)
  have "example_heap 0 \<in> set [example_heap 0]
      \<and> norm_key (example_heap 0)
        = norm_key ((example_heap 1)\<lparr>label_text := '' NAME '', confidence := 9 / 10\<rparr>)
      \<and> norm_key ((example_heap 1)\<lparr>label_text := '' NAME '', confidence := 9 / 10\<rparr>) \<noteq> []
      \<and> confidence (example_heap 0)
        < confidence ((example_heap 1)\<lparr>label_text := '' NAME '', confidence := 9 / 10\<rparr>)"
    using k0 k1 c by simp
  with T have "merge_fields [example_heap 0]
        [(example_heap 1)\<lparr>label_text := '' NAME '', confidence := 9 / 10\<rparr>]
       = Some (remove1 (example_heap 0) [example_heap 0]
           @ [(example_heap 1)\<lparr>label_text := '' NAME '', confidence := 9 / 10\<rparr>])"
    by blast
  then have m: "merge_fields [example_heap 0]
        [(example_heap 1)\<lparr>label_text := '' NAME '', confidence := 9 / 10\<rparr>]
       = Some [(example_heap 1)\<lparr>label_text := '' NAME '', confidence := 9 / 10\<rparr>]"
    by simp
  from d k0 k1 m show ?thesis by (intro conjI)
qed

text \<open>
  An external field whose normalized key is empty is skipped: here the key (empty) is
  present in both lists and the entry that survives is the less confident one.
\<close>

theorem merge_fields_empty_key_counterexample:
  "distinct (map norm_key [(example_heap 0)\<lparr>label_text := []\<rparr>])
   \<and> norm_key ((example_heap 0)\<lparr>label_text := []\<rparr>)
       = norm_key ((example_heap 1)\<lparr>label_text := '' '', confidence := 9 / 10\<rparr>)
   \<and> confidence ((example_heap 0)\<lparr>label_text := []\<rparr>)
       < confidence ((example_heap 1)\<lparr>label_text := '' '', confidence := 9 / 10\<rparr>)
   \<and> merge_fields [(example_heap 0)\<lparr>label_text := []\<rparr>]
        [(example_heap 1)\<lparr>label_text := '' '', confidence := 9 / 10\<rparr>]
       = Some [(example_heap 0)\<lparr>label_text := []\<rparr>]"
proof -
  have k: "norm_key ((example_heap 1)\<lparr>label_text := '' '', confidence := 9 / 10\<rparr>) = []"
    by code_simp
  have k0: "norm_key ((example_heap 0)\<lparr>label_text := []\<rparr>) = []"
    by code_simp
  have c: "confidence ((example_heap 0)\<lparr>label_text := []\<rparr>)
       < confidence ((example_heap 1)\<lparr>label_text := '' '', confidence := 9 / 10\<rparr>)"
    by (simp add: example_heap_def)
  have m: "merge_fields [(example_heap 0)\<lparr>label_text := []\<rparr>]
        [(example_heap 1)\<lparr>label_text := '' '', confidence := 9 / 10\<rparr>]
       = Some [(example_heap 0)\<lparr>label_text := []\<rparr>]"
    using k by (simp add: merge_fields_def)
  from k k0 c m show ?thesis by simp
qed

text \<open>
  C8: when the incoming field is exactly as confident as the field the dictionary holds
  for its key, the loop goes on with the working list and the dictionary unchanged;
  fusing a single such field returns the heuristic list. The field the dictionary
  holds for a key is a heuristic field of that key, and with pairwise distinct keys it
  is the heuristic field of that key.
\<close>

theorem merge_fields_tie_keeps_existing:
  "confidence f = confidence existing \<Longrightarrow>
     (seen (norm_key f) = Some existing \<longrightarrow>
        merge_loop (f # rest) (merged, seen) = merge_loop rest (merged, seen))
     \<and> (seen_of heuristic (norm_key f) = Some existing \<longrightarrow>
          existing \<in> set heuristic \<and> norm_key existing = norm_key f
          \<and> merge_fields heuristic [f] = Some heuristic)
     \<and> (distinct (map norm_key heuristic) \<and> existing \<in> set heuristic
          \<and> norm_key existing = norm_key f \<longrightarrow> merge_fields heuristic [f] = Some heuristic)"
proof -
  assume tie: "confidence f = confidence existing"
  have p1: "merge_loop (f # rest) (merged, seen) = merge_loop rest (merged, seen)"
    if "seen (norm_key f) = Some existing"
    using that tie by (simp add: Let_def)
  have p2: "existing \<in> set heuristic \<and> norm_key existing = norm_key f
          \<and> merge_fields heuristic [f] = Some heuristic"
    if s: "seen_of heuristic (norm_key f) = Some existing"
  proof -
    have "merge_fields heuristic [f] = Some heuristic"
      using s tie by (simp add: merge_fields_def Let_def)
    with seen_of_member [OF s] show ?thesis by simp
  qed
  have p3: "merge_fields heuristic [f] = Some heuristic"
    if "distinct (map norm_key heuristic) \<and> existing \<in> set heuristic
          \<and> norm_key existing = norm_key f"
  proof -
    from that have "seen_of heuristic (norm_key f) = Some existing"
      by (simp add: seen_of_find merge_single_unique)
    then show ?thesis using tie by (simp add: merge_fields_def Let_def)
  qed
  from p1 p2 p3 show ?thesis by blast
qed

theorem merge_fields_tie_keeps_existing_witness:
  "confidence ((example_heap 2)\<lparr>label_text := ''NAME''\<rparr>) = confidence (example_heap 0)
   \<and> seen_of [example_heap 0] (norm_key ((example_heap 2)\<lparr>label_text := ''NAME''\<rparr>))
       = Some (example_heap 0)
   \<and> merge_fields [example_heap 0] [(example_heap 2)\<lparr>label_text := ''NAME''\<rparr>]
       = Some [example_heap 0]"
proof -
  have c: "confidence ((example_heap 2)\<lparr>label_text := ''NAME''\<rparr>) = confidence (example_heap 0)"
    by (simp add: example_heap_def)
  note T = merge_fields_tie_keeps_existing [OF c, of "\<lambda>_. None" "[]" "[]" "[example_heap 0]"]
  have k0: "norm_key (example_heap 0) = ''name''" by code_simp
  have k1: "norm_key ((example_heap 2)\<lparr>label_text := ''NAME''\<rparr>) = ''name''" by code_simp
  have s: "seen_of [example_heap 0] (norm_key ((example_heap 2)\<lparr>label_text := ''NAME''\<rparr>))
       = Some (example_heap 0)"
    by (simp add: seen_of_def k0 k1)
  with T have "merge_fields [example_heap 0] [(example_heap 2)\<lparr>label_text := ''NAME''\<rparr>]
       = Some [example_heap 0]"
    by blast
  with c s show ?thesis by (intro conjI)
qed

section \<open>Inferred regions and bounding-box well-formedness\<close>

text \<open>
  C10: the inferred region of a label \<open>(lx1, ly1, lx2, ly2)\<close> starts at \<open>lx2 + 10\<close> and
  ends at the smaller of \<open>lx2 + 400\<close> and \<open>int (0.8 * width)\<close>. Whenever the start
  exceeds that end the region has \<open>x1 > x2\<close> and is not well formed; for a non-negative
  width the end is \<open>min (lx2 + 400) (floor (0.8 * width))\<close>, and a label whose right edge
  is at or beyond 80% of the width is such a case. A well-formed label on a page of
  positive width can have an ill-formed inferred region. Nothing repairs it: the field
  builders take the inferred region as it is when no candidate is under the cap,
  ordering leaves every target box as it was, and fusion returns fields of its inputs.
\<close>

theorem inferred_region_degenerate:
  "(lx2 + 10 > min (lx2 + 400) (scale_08 w) \<longrightarrow>
      (\<exists>x2. infer_answer_region (lx1, ly1, lx2, ly2) w = (lx2 + 10, ly1, x2, ly2) \<and> x2 < lx2 + 10)
      \<and> \<not> bbox_ok (infer_answer_region (lx1, ly1, lx2, ly2) w))
   \<and> (0 \<le> w \<and> lx2 + 10 > min (lx2 + 400) \<lfloor>(4 / 5 :: rat) * of_int w\<rfloor> \<longrightarrow>
        \<not> bbox_ok (infer_answer_region (lx1, ly1, lx2, ly2) w))
   \<and> (0 \<le> w \<and> (4 / 5 :: rat) * of_int w \<le> of_int lx2 \<longrightarrow>
        \<not> bbox_ok (infer_answer_region (lx1, ly1, lx2, ly2) w))
   \<and> (\<exists>lb pw. bbox_ok lb \<and> 0 < pw \<and> \<not> bbox_ok (infer_answer_region lb pw))
   \<and> ((\<forall>x\<in>set regions. \<forall>d. measured_dist lb x = Some d \<longrightarrow> 200 \<le> d) \<longrightarrow>
        resolve_target lb regions w = infer_answer_region lb w)
   \<and> (order_fields h refs = (h', ordered) \<longrightarrow> (\<forall>r. target_bbox (h' r) = target_bbox (h r)))
   \<and> (merge_fields heuristic llm = Some out \<longrightarrow> set out \<subseteq> set heuristic \<union> set llm)"
proof -
  have p1: "(\<exists>x2. infer_answer_region (lx1, ly1, lx2, ly2) w = (lx2 + 10, ly1, x2, ly2) \<and> x2 < lx2 + 10)
      \<and> \<not> bbox_ok (infer_answer_region (lx1, ly1, lx2, ly2) w)"
    if "lx2 + 10 > min (lx2 + 400) (scale_08 w)"
    using that by (auto simp: infer_answer_region_def bbox_ok_def Let_def)
  have p2: "\<not> bbox_ok (infer_answer_region (lx1, ly1, lx2, ly2) w)"
    if "0 \<le> w \<and> lx2 + 10 > min (lx2 + 400) \<lfloor>(4 / 5 :: rat) * of_int w\<rfloor>"
  proof -
    from that have "lx2 + 10 > min (lx2 + 400) (scale_08 w)" by (simp add: scale_08_floor)
    with p1 show ?thesis by blast
  qed
  have p3: "\<not> bbox_ok (infer_answer_region (lx1, ly1, lx2, ly2) w)"
    if "0 \<le> w \<and> (4 / 5 :: rat) * of_int w \<le> of_int lx2"
  proof -
    from that have "\<lfloor>(4 / 5 :: rat) * of_int w\<rfloor> \<le> lx2" by (simp add: floor_le_iff)
    with that have "scale_08 w \<le> lx2" by (simp add: scale_08_floor)
    then have "lx2 + 10 > min (lx2 + 400) (scale_08 w)" by simp
    with p1 show ?thesis by blast
  qed
  have "bbox_ok (700, 100, 800, 120) \<and> (0::int) < 1000
      \<and> \<not> bbox_ok (infer_answer_region (700, 100, 800, 120) 1000)"
    by (simp add: bbox_ok_def infer_answer_region_def scale_08_def)
  then have p4: "\<exists>lb pw. bbox_ok lb \<and> 0 < pw \<and> \<not> bbox_ok (infer_answer_region lb pw)"
    by blast
  have p5: "resolve_target lb regions w = infer_answer_region lb w"
    if "\<forall>x\<in>set regions. \<forall>d. measured_dist lb x = Some d \<longrightarrow> 200 \<le> d"
  proof -
    from that have "find_nearest_input_region lb regions 200 = None"
      by (simp only: find_nearest_none_iff)
    then show ?thesis by (simp add: resolve_target_def)
  qed
  have p6: "\<forall>r. target_bbox (h' r) = target_bbox (h r)"
    if run: "order_fields h refs = (h', ordered)"
  proof
    fix r
    from run have h': "h' = assign_ids 0 ordered h"
      by (auto simp: order_fields_def Let_def)
    show "target_bbox (h' r) = target_bbox (h r)"
      unfolding h' by (subst assign_ids_frame) simp
  qed
  have p7: "set out \<subseteq> set heuristic \<union> set llm" if "merge_fields heuristic llm = Some out"
    using that by (rule merge_fields_set)
  from p1 p2 p3 p4 p5 p6 p7 show ?thesis by blast
qed

theorem inferred_region_degenerate_witness:
  "(800::int) + 10 > min (800 + 400) (scale_08 1000)
   \<and> (0::int) \<le> 1000 \<and> (4 / 5 :: rat) * of_int 1000 \<le> of_int 800
   \<and> bbox_ok (700, 100, 800, 120)
   \<and> infer_answer_region (700, 100, 800, 120) 1000 = (810, 100, 800, 120)
   \<and> \<not> bbox_ok (infer_answer_region (700, 100, 800, 120) 1000)
   \<and> resolve_target (700, 100, 800, 120) [] 1000 = (810, 100, 800, 120)"
proof -
  note T = inferred_region_degenerate
    [of 800 1000 700 100 120 "[]" "(700, 100, 800, 120)" example_heap "[]" example_heap "[]" "[]" "[]" "[]"]
  have a: "(800::int) + 10 > min (800 + 400) (scale_08 1000)" by (simp add: scale_08_def)
  have b: "(0::int) \<le> 1000 \<and> (4 / 5 :: rat) * of_int 1000 \<le> of_int 800" by simp
  have c: "bbox_ok (700, 100, 800, 120)" by (simp add: bbox_ok_def)
  have e: "infer_answer_region (700, 100, 800, 120) 1000 = (810, 100, 800, 120)"
    by (simp add: infer_answer_region_def scale_08_def)
  from T a have f: "\<not> bbox_ok (infer_answer_region (700, 100, 800, 120) 1000)" by blast
  have "\<forall>x\<in>set []. \<forall>d. measured_dist (700, 100, 800, 120) x = Some d \<longrightarrow> (200::int) \<le> d"
    by simp
  with T have "resolve_target (700, 100, 800, 120) [] 1000
      = infer_answer_region (700, 100, 800, 120) 1000"
    by blast
  with e have g: "resolve_target (700, 100, 800, 120) [] 1000 = (810, 100, 800, 120)" by simp
  from a b c e f g show ?thesis by (intro conjI) simp_all
qed

end
